theory Spec2Isabelle
  imports Main "HOL-Library.AList" "HOL-Library.Char_ord" "HOL-Library.List_Lexorder"
    "HOL-Library.Multiset"
begin

section \<open>Errors\<close>

text \<open>
  Every exception the loader can raise is a value. The first seven constructors are the
  \<open>LioLoaderException\<close>s of \<open>lio.py\<close>, one per message; the remaining ones are
  the built-in Python exceptions that the code lets escape.
\<close>

datatype error =
    DuplicatedGroups          \<comment> \<open>"Duplicated groups in point file"\<close>
  | MissingGroup              \<comment> \<open>"Missing group from point file"\<close>
  | PointsSum                 \<comment> \<open>"Points for all groups doesn't sum up to 100"\<close>
  | ZipDirectory              \<comment> \<open>"Test zip archive contains a directory"\<close>
  | UnsupportedFile           \<comment> \<open>"Unsupported file in test archive ..."\<close>
  | InputOrOutputNotFound int string
                              \<comment> \<open>"Input or output file not found for test {group}{test_in_group}"\<close>
  | NoTestcases int           \<comment> \<open>"No testcases for group {i}"\<close>
  | IndexError
  | ValueError
  | KeyError
  | UnicodeDecodeError

fun is_LioLoaderException :: "error \<Rightarrow> bool" where
  "is_LioLoaderException IndexError = False"
| "is_LioLoaderException ValueError = False"
| "is_LioLoaderException KeyError = False"
| "is_LioLoaderException UnicodeDecodeError = False"
| "is_LioLoaderException _ = True"

section \<open>The Python string operations used by the loader\<close>

text \<open>
  A \<open>str\<close> is a list of characters; a \<^typ>\<open>char\<close> stands for a code point below 256.
  \<open>isspace\<close> lists the code points below 256 that \<open>str.strip\<close> and \<open>str.split\<close>
  treat as white space, \<open>isdigit\<close> the ones that \<open>int\<close> and the pattern \<open>\d\<close> take
  as decimal digits. Text with code points from 256 on (other decimal digits, other
  spaces) is outside the model, and so is the bound that recent interpreters put on the
  number of digits that \<open>int\<close> converts.
\<close>

definition isspace :: "char \<Rightarrow> bool" where
  "isspace c = ((of_char c :: nat) \<in> {9, 10, 11, 12, 13, 28, 29, 30, 31, 32, 133, 160})"

definition isdigit :: "char \<Rightarrow> bool" where
  "isdigit c = (48 \<le> (of_char c :: nat) \<and> (of_char c :: nat) \<le> 57)"

definition digit_value :: "char \<Rightarrow> nat" where
  "digit_value c = of_char c - 48"

definition islower_ascii :: "char \<Rightarrow> bool" where
  "islower_ascii c = (97 \<le> (of_char c :: nat) \<and> (of_char c :: nat) \<le> 122)"

definition strip :: "string \<Rightarrow> string" where
  "strip s = rev (dropWhile isspace (rev (dropWhile isspace s)))"

definition replace_char :: "char \<Rightarrow> char \<Rightarrow> string \<Rightarrow> string" where
  "replace_char old new s = map (\<lambda>c. if c = old then new else c) s"

text \<open>\<open>s.split()\<close>: the maximal runs of characters that are not white space.\<close>

fun split_from :: "string \<Rightarrow> string \<Rightarrow> string list" where
  "split_from cur [] = (if cur = [] then [] else [cur])"
| "split_from cur (c # cs) =
     (if isspace c then (if cur = [] then split_from [] cs else cur # split_from [] cs)
      else split_from (cur @ [c]) cs)"

definition split :: "string \<Rightarrow> string list" where
  "split s = split_from [] s"

text \<open>
  \<open>int(s)\<close> in base ten: white space around the literal is dropped, then an optional
  sign and decimal digits, where one underscore may stand between two digits.
\<close>

fun int_digits :: "nat \<Rightarrow> string \<Rightarrow> nat option" where
  "int_digits acc [] = Some acc"
| "int_digits acc (c # cs) =
     (if isdigit c then int_digits (acc * 10 + digit_value c) cs
      else if c = CHR ''_'' then
        (case cs of
           [] \<Rightarrow> None
         | d # ds \<Rightarrow> if isdigit d then int_digits (acc * 10 + digit_value d) ds else None)
      else None)"

definition int_unsigned :: "string \<Rightarrow> nat option" where
  "int_unsigned s =
     (case s of
        [] \<Rightarrow> None
      | c # cs \<Rightarrow> if isdigit c then int_digits (digit_value c) cs else None)"

definition py_int :: "string \<Rightarrow> error + int" where
  "py_int s =
     (case strip s of
        [] \<Rightarrow> Inl ValueError
      | c # cs \<Rightarrow>
          if c = CHR ''+'' then
            (case int_unsigned cs of None \<Rightarrow> Inl ValueError | Some n \<Rightarrow> Inr (int n))
          else if c = CHR ''-'' then
            (case int_unsigned cs of None \<Rightarrow> Inl ValueError | Some n \<Rightarrow> Inr (- int n))
          else
            (case int_unsigned (c # cs) of None \<Rightarrow> Inl ValueError | Some n \<Rightarrow> Inr (int n)))"

text \<open>\<open>xs[k]\<close> for a non-negative constant \<open>k\<close>.\<close>

definition item :: "'a list \<Rightarrow> nat \<Rightarrow> error + 'a" where
  "item xs k = (if k < length xs then Inr (xs ! k) else Inl IndexError)"

section \<open>The point file: \<open>parse_point_file\<close>\<close>

text \<open>
  The dictionary \<open>points_per_group\<close> is an association list in insertion order. A key is
  only ever stored when it is absent (a present key raises), so storing appends.
  The argument of \<open>parse_point_file\<close> is the list that \<open>f.readlines()\<close> returns.
\<close>

type_synonym points_dict = "(int \<times> int) list"

definition line_vars :: "string \<Rightarrow> string list" where
  "line_vars line = split (replace_char (CHR ''-'') (CHR '' '') line)"

definition parse_line :: "string \<Rightarrow> error + (int \<times> int \<times> int)" where
  "parse_line line =
     (let vars = line_vars line in
      case item vars 0 of Inl e \<Rightarrow> Inl e | Inr v0 \<Rightarrow>
     (case py_int v0 of Inl e \<Rightarrow> Inl e | Inr a \<Rightarrow>
     (case item vars 1 of Inl e \<Rightarrow> Inl e | Inr v1 \<Rightarrow>
     (case py_int v1 of Inl e \<Rightarrow> Inl e | Inr b \<Rightarrow>
     (case item vars 2 of Inl e \<Rightarrow> Inl e | Inr v2 \<Rightarrow>
     (case py_int v2 of Inl e \<Rightarrow> Inl e | Inr points \<Rightarrow> Inr (a, b, points)))))))"

text \<open>The inner loop \<open>for group in range(a, b+1)\<close>.\<close>

fun assign_groups :: "points_dict \<Rightarrow> int list \<Rightarrow> int \<Rightarrow> error + points_dict" where
  "assign_groups d [] points = Inr d"
| "assign_groups d (g # gs) points =
     (if g \<in> fst ` set d then Inl DuplicatedGroups
      else assign_groups (d @ [(g, points)]) gs points)"

text \<open>The outer loop \<open>for line in content\<close>.\<close>

fun parse_lines :: "points_dict \<Rightarrow> string list \<Rightarrow> error + points_dict" where
  "parse_lines d [] = Inr d"
| "parse_lines d (line # content) =
     (case parse_line line of
        Inl e \<Rightarrow> Inl e
      | Inr (a, b, points) \<Rightarrow>
          (case assign_groups d [a..b] points of
             Inl e \<Rightarrow> Inl e
           | Inr d' \<Rightarrow> parse_lines d' content))"

definition parse_point_file :: "string list \<Rightarrow> error + points_dict" where
  "parse_point_file lines =
     (case parse_lines [] (map strip lines) of
        Inl e \<Rightarrow> Inl e
      | Inr d \<Rightarrow>
          if \<exists>g \<in> set [0..int (length d) - 1]. g \<notin> fst ` set d then Inl MissingGroup
          else if sum_list (map snd d) \<noteq> 100 then Inl PointsSum
          else Inr d)"

section \<open>Decimal output: \<open>str\<close> and zero-padded formatting\<close>

fun str_nat :: "nat \<Rightarrow> string" where
  "str_nat n =
     (if n < 10 then [char_of (48 + n)] else str_nat (n div 10) @ [char_of (48 + n mod 10)])"

declare str_nat.simps [simp del]

definition str_int :: "int \<Rightarrow> string" where
  "str_int i = (if i < 0 then CHR ''-'' # str_nat (nat (- i)) else str_nat (nat i))"

text \<open>
  \<open>f"{i:0{w}}"\<close>: the decimal digits, filled with zeros between the sign and the digits
  up to a total width of \<open>w\<close>.
\<close>

definition format_zero :: "nat \<Rightarrow> int \<Rightarrow> string" where
  "format_zero w i =
     (if i < 0 then
        CHR ''-'' # replicate (w - 1 - length (str_nat (nat (- i)))) (CHR ''0'')
          @ str_nat (nat (- i))
      else replicate (w - length (str_nat (nat i))) (CHR ''0'') @ str_nat (nat i))"

section \<open>The test archive\<close>

subsection \<open>The pattern \<open>\.(i|o)(\d+)([a-z]*)$\<close>\<close>

text \<open>
  \<open>match_here s\<close> matches the pattern at the start of \<open>s\<close> and returns the three
  groups. The repetitions are greedy, and giving a character back can never help: the
  character after the digits would be a digit, the one after the letters a letter, and
  neither can start what follows in the pattern. \<open>$\<close> holds at the end of the string and
  before a line feed that ends the string. \<open>search\<close> tries the start positions from left
  to right, as \<open>matcher.search\<close> does.
\<close>

definition match_here :: "string \<Rightarrow> (char \<times> string \<times> string) option" where
  "match_here s =
     (case s of
        dot # d # rest \<Rightarrow>
          if dot = CHR ''.'' \<and> (d = CHR ''i'' \<or> d = CHR ''o'') then
            (let digits = takeWhile isdigit rest;
                 rest1 = dropWhile isdigit rest;
                 letters = takeWhile islower_ascii rest1;
                 rest2 = dropWhile islower_ascii rest1
             in if digits \<noteq> [] \<and> (rest2 = [] \<or> rest2 = [CHR 0x0A])
                then Some (d, digits, letters) else None)
          else None
      | _ \<Rightarrow> None)"

fun search :: "string \<Rightarrow> (char \<times> string \<times> string) option" where
  "search [] = match_here []"
| "search (c # cs) =
     (case match_here (c # cs) of Some m \<Rightarrow> Some m | None \<Rightarrow> search cs)"

subsection \<open>Collecting the member names into \<open>test_files\<close>\<close>

text \<open>
  \<open>test_files\<close> is a dictionary from group to a dictionary from the label of the test in
  its group to a dictionary with at most the keys \<open>'input'\<close> and \<open>'output'\<close>; the last one
  is a pair of optional file names. \<open>classify\<close> is the part of the loop body that reads
  one member name: is it an input, its group and its label.
\<close>

type_synonym testcase_files = "string option \<times> string option"

type_synonym test_files = "(int \<times> (string \<times> testcase_files) list) list"

definition classify :: "string \<Rightarrow> error + (bool \<times> int \<times> string)" where
  "classify test_filename =
     (if CHR ''/'' \<in> set test_filename \<or> CHR 0x5C \<in> set test_filename then Inl ZipDirectory
      else
        (case search test_filename of
           None \<Rightarrow> Inl UnsupportedFile
         | Some (g1, g2, g3) \<Rightarrow>
             (case py_int g2 of
                Inl e \<Rightarrow> Inl e
              | Inr grp \<Rightarrow> Inr (g1 = CHR ''i'', grp, g3))))"

definition add_test_file :: "test_files \<Rightarrow> string \<Rightarrow> error + test_files" where
  "add_test_file test_files test_filename =
     (case classify test_filename of
        Inl e \<Rightarrow> Inl e
      | Inr (is_input, grp, test_in_group) \<Rightarrow>
          (let in_group = (case map_of test_files grp of None \<Rightarrow> [] | Some m \<Rightarrow> m);
               testcase =
                 (case map_of in_group test_in_group of None \<Rightarrow> (None, None) | Some t \<Rightarrow> t);
               testcase' =
                 (if is_input then (Some test_filename, snd testcase)
                  else (fst testcase, Some test_filename))
           in Inr (AList.update grp (AList.update test_in_group testcase' in_group)
                     test_files)))"

fun collect_test_files :: "test_files \<Rightarrow> string list \<Rightarrow> error + test_files" where
  "collect_test_files test_files [] = Inr test_files"
| "collect_test_files test_files (test_filename # namelist) =
     (case add_test_file test_files test_filename of
        Inl e \<Rightarrow> Inl e
      | Inr test_files' \<Rightarrow> collect_test_files test_files' namelist)"

subsection \<open>Reading a member\<close>

text \<open>
  The archive is the list of its members in the order of \<open>zip.namelist()\<close>, each with its
  name and its bytes; \<open>zip.open(name)\<close> gives the last member of that name. Reading
  through \<open>TextIOWrapper(..., encoding='ascii', newline=None)\<close> fails on a byte above 127
  and turns \<open>\r\n\<close> and \<open>\r\<close> into \<open>\n\<close>. The digest that the file cacher returns for
  the content is represented by the content itself.
\<close>

type_synonym archive = "(string \<times> string) list"

fun universal_newlines :: "string \<Rightarrow> string" where
  "universal_newlines [] = []"
| "universal_newlines [c] = [if c = CHR 0x0D then CHR 0x0A else c]"
| "universal_newlines (c # d # ds) =
     (if c = CHR 0x0D \<and> d = CHR 0x0A then CHR 0x0A # universal_newlines ds
      else if c = CHR 0x0D then CHR 0x0A # universal_newlines (d # ds)
      else c # universal_newlines (d # ds))"

definition read_ascii :: "archive \<Rightarrow> string \<Rightarrow> error + string" where
  "read_ascii zip_file name =
     (case map_of (rev zip_file) name of
        None \<Rightarrow> Inl KeyError
      | Some bytes \<Rightarrow>
          if \<exists>b \<in> set bytes. (128::nat) \<le> of_char b then Inl UnicodeDecodeError
          else Inr (universal_newlines bytes))"

subsection \<open>Extracting the tests in order\<close>

record Testcase =
  codename :: string
  public :: bool
  input_digest :: string
  output_digest :: string

type_synonym testcases = "(string \<times> Testcase) list"

text \<open>\<open>xs[i] += 1\<close>: a negative index counts from the end.\<close>

definition increment :: "int list \<Rightarrow> int \<Rightarrow> error + int list" where
  "increment xs i =
     (if 0 \<le> i \<and> i < int (length xs) then Inr (xs[nat i := xs ! nat i + 1])
      else if i < 0 \<and> - int (length xs) \<le> i then
        Inr (xs[nat (int (length xs) + i) := xs ! nat (int (length xs) + i) + 1])
      else Inl IndexError)"

text \<open>\<open>max(xs)\<close>, which raises on an empty sequence.\<close>

fun py_max :: "int list \<Rightarrow> error + int" where
  "py_max [] = Inl ValueError"
| "py_max (x # xs) = Inr (fold max xs x)"

text \<open>The body of the inner loop, for one label of one group.\<close>

definition extract_test ::
  "archive \<Rightarrow> int list \<Rightarrow> nat \<Rightarrow> int \<Rightarrow> (string \<times> testcase_files) list \<Rightarrow> string \<Rightarrow>
   int list \<times> testcases \<Rightarrow> error + (int list \<times> testcases)" where
  "extract_test zip_file public_groups max_group_digit_length grp in_group test_in_group st =
     (case increment (fst st) grp of
        Inl e \<Rightarrow> Inl e
      | Inr tests_per_group \<Rightarrow>
          (case map_of in_group test_in_group of
             None \<Rightarrow> Inl KeyError
           | Some testcase \<Rightarrow>
               (case testcase of
                  (Some input_name, Some output_name) \<Rightarrow>
                    (case read_ascii zip_file input_name of
                       Inl e \<Rightarrow> Inl e
                     | Inr input_content \<Rightarrow>
                         (case read_ascii zip_file output_name of
                            Inl e \<Rightarrow> Inl e
                          | Inr output_content \<Rightarrow>
                              (let cn = format_zero max_group_digit_length grp @ test_in_group
                               in Inr (tests_per_group,
                                    AList.update cn
                                      \<lparr>codename = cn, public = (grp \<in> set public_groups),
                                       input_digest = input_content,
                                       output_digest = output_content\<rparr>
                                      (snd st)))))
                | _ \<Rightarrow> Inl (InputOrOutputNotFound grp test_in_group))))"

text \<open>\<open>for test_in_group in sorted(test_files[group].keys())\<close>.\<close>

fun extract_group ::
  "archive \<Rightarrow> int list \<Rightarrow> nat \<Rightarrow> int \<Rightarrow> (string \<times> testcase_files) list \<Rightarrow> string list \<Rightarrow>
   int list \<times> testcases \<Rightarrow> error + (int list \<times> testcases)" where
  "extract_group zip_file public_groups w grp in_group [] st = Inr st"
| "extract_group zip_file public_groups w grp in_group (test_in_group # rest) st =
     (case extract_test zip_file public_groups w grp in_group test_in_group st of
        Inl e \<Rightarrow> Inl e
      | Inr st' \<Rightarrow> extract_group zip_file public_groups w grp in_group rest st')"

text \<open>\<open>for group in sorted(test_files.keys())\<close>.\<close>

fun extract_groups ::
  "archive \<Rightarrow> int list \<Rightarrow> nat \<Rightarrow> test_files \<Rightarrow> int list \<Rightarrow>
   int list \<times> testcases \<Rightarrow> error + (int list \<times> testcases)" where
  "extract_groups zip_file public_groups w test_files [] st = Inr st"
| "extract_groups zip_file public_groups w test_files (grp # rest) st =
     (case map_of test_files grp of
        None \<Rightarrow> Inl KeyError
      | Some in_group \<Rightarrow>
          (case extract_group zip_file public_groups w grp in_group (sort (map fst in_group)) st of
             Inl e \<Rightarrow> Inl e
           | Inr st' \<Rightarrow> extract_groups zip_file public_groups w test_files rest st'))"

subsection \<open>The check that every group has a test\<close>

text \<open>\<open>for i in range(len(tests_per_group))\<close>, with \<open>i\<close> the index of the head.\<close>

fun check_tests_per_group :: "nat \<Rightarrow> int list \<Rightarrow> error + unit" where
  "check_tests_per_group i [] = Inr ()"
| "check_tests_per_group i (n # ns) =
     (if n = 0 then Inl (NoTestcases (int i)) else check_tests_per_group (Suc i) ns)"

section \<open>The dataset part of \<open>get_task\<close>\<close>

text \<open>
  \<open>get_task\<close> is modelled from the point where it reads the point file to the end: the
  scoring parameters, the test cases and the final check. What comes before (names,
  statements, limits, the checker) reads the configuration only; of the configuration
  this part uses \<open>public_groups\<close>, absent (\<open>None\<close>) or a list.
\<close>

record Dataset =
  score_type_parameters :: "(int \<times> string) list"
  testcases :: testcases

text \<open>\<open>[[points_per_group[i], f"{i:03}"] for i in range(len(points_per_group))]\<close>.\<close>

fun score_params :: "points_dict \<Rightarrow> int list \<Rightarrow> error + (int \<times> string) list" where
  "score_params d [] = Inr []"
| "score_params d (i # is) =
     (case map_of d i of
        None \<Rightarrow> Inl KeyError
      | Some points \<Rightarrow>
          (case score_params d is of
             Inl e \<Rightarrow> Inl e
           | Inr ps \<Rightarrow> Inr ((points, format_zero 3 i) # ps)))"

definition get_task :: "int list option \<Rightarrow> string list \<Rightarrow> archive \<Rightarrow> error + Dataset" where
  "get_task conf_public_groups point_lines zip_file =
     (case parse_point_file point_lines of
        Inl e \<Rightarrow> Inl e
      | Inr points_per_group \<Rightarrow>
     (case score_params points_per_group [0..int (length points_per_group) - 1] of
        Inl e \<Rightarrow> Inl e
      | Inr params \<Rightarrow>
     (let public_groups = (case conf_public_groups of None \<Rightarrow> [0, 1] | Some gs \<Rightarrow> gs);
          tests_per_group = replicate (length points_per_group) 0
      in
     (case collect_test_files [] (map fst zip_file) of
        Inl e \<Rightarrow> Inl e
      | Inr test_files \<Rightarrow>
     (case py_max (map fst test_files) of
        Inl e \<Rightarrow> Inl e
      | Inr max_group \<Rightarrow>
     (case extract_groups zip_file public_groups (length (str_int max_group)) test_files
             (sort (map fst test_files)) (tests_per_group, []) of
        Inl e \<Rightarrow> Inl e
      | Inr st \<Rightarrow>
     (case check_tests_per_group 0 (fst st) of
        Inl e \<Rightarrow> Inl e
      | Inr _ \<Rightarrow> Inr \<lparr>score_type_parameters = params, testcases = snd st\<rparr>)))))))"

section \<open>Notions used in the statements\<close>

text \<open>The number that a string of decimal digits denotes.\<close>

definition decimal :: "string \<Rightarrow> nat" where
  "decimal ds = foldl (\<lambda>acc c. acc * 10 + digit_value c) 0 ds"

text \<open>
  A line of the point file is well formed when the loop body can read its three integers;
  \<open>line_groups\<close> are the groups that the line then assigns.
\<close>

definition well_formed_line :: "string \<Rightarrow> bool" where
  "well_formed_line line = (case parse_line (strip line) of Inl _ \<Rightarrow> False | Inr _ \<Rightarrow> True)"

definition line_groups :: "string \<Rightarrow> int set" where
  "line_groups line =
     (case parse_line (strip line) of Inl _ \<Rightarrow> {} | Inr (a, b, points) \<Rightarrow> set [a..b])"

text \<open>
  The shape of a member name, in words: a base name, a dot, the direction marker, the
  digits of the group, the lowercase letters of the label and what is left. The name
  pattern of the specification, \<open>^.+\.(i|o)(\d+)([a-z]*)$\<close>, asks for a base name that
  is not empty and for nothing after the letters; \<open>name_pattern\<close> is the pattern that the
  code searches for, whose base name may be empty and whose \<open>$\<close> also holds before one
  final line feed.
\<close>

definition name_parts :: "string \<Rightarrow> string \<Rightarrow> char \<Rightarrow> string \<Rightarrow> string \<Rightarrow> string \<Rightarrow> bool" where
  "name_parts name base d ds ls rest =
     (name = base @ CHR ''.'' # d # ds @ ls @ rest
      \<and> (d = CHR ''i'' \<or> d = CHR ''o'')
      \<and> ds \<noteq> [] \<and> (\<forall>c \<in> set ds. isdigit c)
      \<and> (\<forall>c \<in> set ls. islower_ascii c))"

definition spec_name_pattern :: "string \<Rightarrow> bool" where
  "spec_name_pattern name = (\<exists>base d ds ls. base \<noteq> [] \<and> name_parts name base d ds ls [])"

definition name_pattern :: "string \<Rightarrow> bool" where
  "name_pattern name =
     (\<exists>base d ds ls rest. (rest = [] \<or> rest = [CHR 0x0A]) \<and> name_parts name base d ds ls rest)"

text \<open>\<open>test_files[group][test_in_group]['input']\<close> (or \<open>'output'\<close>), \<open>None\<close> when a key is absent.\<close>

definition test_file :: "test_files \<Rightarrow> int \<Rightarrow> string \<Rightarrow> bool \<Rightarrow> string option" where
  "test_file test_files grp test_in_group is_input =
     (case map_of test_files grp of
        None \<Rightarrow> None
      | Some in_group \<Rightarrow>
          (case map_of in_group test_in_group of
             None \<Rightarrow> None
           | Some testcase \<Rightarrow> if is_input then fst testcase else snd testcase))"

text \<open>
  The three steps of the loop body on \<open>test_files\<close>: the dictionary of a group (empty when
  the group is new), the entry of a label in it (empty when the label is new), and the
  entry with the file name stored under \<open>'input'\<close> or \<open>'output'\<close>.
\<close>

definition in_group_of :: "test_files \<Rightarrow> int \<Rightarrow> (string \<times> testcase_files) list" where
  "in_group_of test_files grp = (case map_of test_files grp of None \<Rightarrow> [] | Some m \<Rightarrow> m)"

definition testcase_of :: "(string \<times> testcase_files) list \<Rightarrow> string \<Rightarrow> testcase_files" where
  "testcase_of in_group t = (case map_of in_group t of None \<Rightarrow> (None, None) | Some tc \<Rightarrow> tc)"

definition set_file :: "bool \<Rightarrow> string \<Rightarrow> testcase_files \<Rightarrow> testcase_files" where
  "set_file is_input name tc = (if is_input then (Some name, snd tc) else (fst tc, Some name))"

text \<open>The labels of the tests of a group, \<open>test_files[group].keys()\<close>; empty when the group is absent.\<close>

definition labels :: "test_files \<Rightarrow> int \<Rightarrow> string set" where
  "labels test_files grp =
     (case map_of test_files grp of None \<Rightarrow> {} | Some in_group \<Rightarrow> fst ` set in_group)"

text \<open>
  An archive holds complete tests exactly for the groups \<open>gs\<close>: every member name is
  accepted and belongs to a group of \<open>gs\<close>, every group of \<open>gs\<close> has a member, every
  input has its output and every output its input, and every member is ASCII text.
\<close>

definition member_group :: "string \<Rightarrow> int option" where
  "member_group name = (case classify name of Inl _ \<Rightarrow> None | Inr (is_input, grp, t) \<Rightarrow> Some grp)"

definition counterpart :: "string \<Rightarrow> string \<Rightarrow> bool" where
  "counterpart name name' =
     (case classify name of
        Inl _ \<Rightarrow> False
      | Inr (is_input, grp, t) \<Rightarrow> classify name' = Inr (\<not> is_input, grp, t))"

definition complete_tests :: "archive \<Rightarrow> int list \<Rightarrow> bool" where
  "complete_tests zip_file gs =
     ((\<forall>name \<in> set (map fst zip_file).
         (case member_group name of None \<Rightarrow> False | Some grp \<Rightarrow> grp \<in> set gs)
         \<and> (\<exists>name' \<in> set (map fst zip_file). counterpart name name'))
      \<and> (\<forall>grp \<in> set gs. \<exists>name \<in> set (map fst zip_file). member_group name = Some grp)
      \<and> (\<forall>bytes \<in> set (map snd zip_file). \<forall>b \<in> set bytes. (of_char b :: nat) < 128))"

text \<open>
  The tests of one group are complete and readable: every label has an input and an output
  file, and both are read from the archive without an error.
\<close>

definition complete_group :: "archive \<Rightarrow> (string \<times> testcase_files) list \<Rightarrow> bool" where
  "complete_group zip_file in_group =
     (\<forall>(t, tc) \<in> set in_group. \<exists>i o' ic oc.
        tc = (Some i, Some o') \<and> read_ascii zip_file i = Inr ic \<and> read_ascii zip_file o' = Inr oc)"

text \<open>The largest group of a member of the archive, \<open>max(test_files.keys())\<close>.\<close>

definition max_group :: "archive \<Rightarrow> int" where
  "max_group zip_file = Max (set (List.map_filter member_group (map fst zip_file)))"

text \<open>
  Three conditions on an archive, for a number \<open>n\<close> of groups: every member name is
  accepted; the members of the groups below \<open>n\<close> form complete ASCII tests; some member
  belongs to a group that is not below \<open>n\<close>.
\<close>

definition accepted_names :: "archive \<Rightarrow> bool" where
  "accepted_names zip_file = (\<forall>name \<in> set (map fst zip_file). member_group name \<noteq> None)"

definition complete_below :: "archive \<Rightarrow> int \<Rightarrow> bool" where
  "complete_below zip_file n =
     (\<forall>(name, bytes) \<in> set zip_file.
        (case member_group name of
           None \<Rightarrow> True
         | Some grp \<Rightarrow>
             grp < n \<longrightarrow>
               (\<exists>name' \<in> set (map fst zip_file). counterpart name name')
               \<and> (\<forall>b \<in> set bytes. (of_char b :: nat) < 128)))"

definition has_group_from :: "archive \<Rightarrow> int \<Rightarrow> bool" where
  "has_group_from zip_file n =
     (\<exists>name \<in> set (map fst zip_file).
        (case member_group name of None \<Rightarrow> False | Some grp \<Rightarrow> n \<le> grp))"

section \<open>Properties of the point-file parser\<close>

lemma assign_groups_distinct:
  "assign_groups d gs p = Inr d' \<Longrightarrow> distinct (map fst d) \<Longrightarrow> distinct (map fst d')"
  by (induction d gs p rule: assign_groups.induct) (auto split: if_splits)

lemma parse_lines_distinct:
  "parse_lines d content = Inr d' \<Longrightarrow> distinct (map fst d) \<Longrightarrow> distinct (map fst d')"
proof (induction content arbitrary: d)
  case Nil
  then show ?case by simp
next
  case (Cons line content)
  then show ?case
    by (auto split: sum.splits prod.splits dest: assign_groups_distinct)
qed

lemma dense_keys:
  assumes "distinct (map fst d)"
    and "\<forall>g \<in> set [0..int (length d) - 1]. g \<in> fst ` set d"
  shows "fst ` set d = {0..int (length d) - 1}"
proof -
  have sub: "{0..int (length d) - 1} \<subseteq> set (map fst d)"
    using assms(2) by auto
  have "card (set (map fst d)) = length d"
    using assms(1) by (metis distinct_card length_map)
  moreover have "card {0..int (length d) - 1} = length d"
    by simp
  ultimately have "{0..int (length d) - 1} = set (map fst d)"
    using sub by (intro card_subset_eq) auto
  then show ?thesis by simp
qed

lemma parse_point_file_result:
  assumes "parse_point_file lines = Inr d"
  shows "fst ` set d = {0..int (length d) - 1} \<and> distinct (map fst d)
           \<and> sum_list (map snd d) = 100"
proof -
  from assms have pl: "parse_lines [] (map strip lines) = Inr d"
    and full: "\<forall>g \<in> set [0..int (length d) - 1]. g \<in> fst ` set d"
    and s: "sum_list (map snd d) = 100"
    by (auto simp: parse_point_file_def split: sum.splits if_splits)
  from pl have "distinct (map fst d)"
    by (rule parse_lines_distinct) simp
  with full s show ?thesis
    by (simp add: dense_keys)
qed

lemma point_file_30_30_40:
  "parse_point_file [''0-1 30'' @ [CHR 0x0A], ''2-2 40'' @ [CHR 0x0A]]
     = Inr [(0, 30), (1, 30), (2, 40)]"
  by code_simp

text \<open>
  Claim C1. Whenever \<open>parse_point_file\<close> returns a dictionary, its keys are exactly
  \<open>0, ..., N-1\<close> for \<open>N\<close> the number of entries, no key occurs twice, and the point values
  sum to exactly 100.
\<close>

theorem parse_point_file_dense_sum_100:
  assumes "parse_point_file lines = Inr d"
  shows "fst ` set d = {0..int (length d) - 1} \<and> distinct (map fst d)
           \<and> sum_list (map snd d) = 100"
  using assms by (rule parse_point_file_result)

theorem parse_point_file_dense_sum_100_witness:
  "parse_point_file [''0-1 30'' @ [CHR 0x0A], ''2-2 40'' @ [CHR 0x0A]]
     = Inr [(0, 30), (1, 30), (2, 40)]
   \<and> fst ` set [(0::int, 30::int), (1, 30), (2, 40)] = {0..2}
   \<and> sum_list (map snd [(0::int, 30::int), (1, 30), (2, 40)]) = 100"
  using parse_point_file_dense_sum_100 [OF point_file_30_30_40] point_file_30_30_40
  by simp

lemma isdigit_not_space: "isdigit c \<Longrightarrow> \<not> isspace c"
  by (auto simp: isdigit_def isspace_def)

lemma int_digits_digits:
  "\<forall>c \<in> set ds. isdigit c \<Longrightarrow>
     int_digits acc ds = Some (foldl (\<lambda>acc c. acc * 10 + digit_value c) acc ds)"
  by (induction ds arbitrary: acc) auto

lemma int_unsigned_digits:
  "ds \<noteq> [] \<Longrightarrow> \<forall>c \<in> set ds. isdigit c \<Longrightarrow> int_unsigned ds = Some (decimal ds)"
  by (cases ds) (auto simp: int_unsigned_def decimal_def int_digits_digits)

lemma strip_no_space: "\<forall>c \<in> set s. \<not> isspace c \<Longrightarrow> strip s = s"
proof -
  assume a: "\<forall>c \<in> set s. \<not> isspace c"
  then have "dropWhile isspace s = s" by (cases s) auto
  moreover from a have "dropWhile isspace (rev s) = rev s" by (cases "rev s") auto
  ultimately show ?thesis by (simp add: strip_def)
qed

lemma isdigit_not_sign: "isdigit c \<Longrightarrow> c \<noteq> CHR ''+'' \<and> c \<noteq> CHR ''-''"
  by (auto simp: isdigit_def)

lemma py_int_digits:
  assumes "ds \<noteq> []" and "\<forall>c \<in> set ds. isdigit c"
  shows "py_int ds = Inr (int (decimal ds))"
proof -
  have "strip ds = ds" using assms(2) by (simp add: strip_no_space isdigit_not_space)
  moreover obtain c cs where "ds = c # cs" using assms(1) by (cases ds) auto
  ultimately show ?thesis
    using assms int_unsigned_digits[of ds] isdigit_not_sign[of c]
    by (simp add: py_int_def)
qed

lemma char_of_digit: "n < 10 \<Longrightarrow> isdigit (char_of (48 + n)) \<and> digit_value (char_of (48 + n)) = n"
  by (simp add: isdigit_def digit_value_def)

lemma str_nat_digits: "\<forall>c \<in> set (str_nat n). isdigit c"
proof (induction n rule: str_nat.induct)
  case (1 n)
  show ?case
  proof (cases "n < 10")
    case True
    then show ?thesis by (subst str_nat.simps) (simp add: char_of_digit)
  next
    case False
    have "n mod 10 < 10" by simp
    then have "isdigit (char_of (48 + n mod 10))" using char_of_digit by blast
    with False 1 show ?thesis by (subst str_nat.simps) auto
  qed
qed

lemma str_nat_nonempty: "str_nat n \<noteq> []"
  by (subst str_nat.simps) simp

lemma decimal_snoc: "decimal (ds @ [c]) = decimal ds * 10 + digit_value c"
  by (simp add: decimal_def)

lemma decimal_str_nat: "decimal (str_nat n) = n"
proof (induction n rule: str_nat.induct)
  case (1 n)
  show ?case
  proof (cases "n < 10")
    case True
    then show ?thesis by (subst str_nat.simps) (simp add: decimal_def char_of_digit)
  next
    case False
    have "n mod 10 < 10" by simp
    then have "digit_value (char_of (48 + n mod 10)) = n mod 10" using char_of_digit by blast
    with False 1 show ?thesis by (subst str_nat.simps) (simp add: decimal_snoc)
  qed
qed

lemma py_int_str_nat: "py_int (str_nat n) = Inr (int n)"
  by (simp add: py_int_digits str_nat_digits str_nat_nonempty decimal_str_nat)


lemma split_from_token:
  "\<forall>c \<in> set t. \<not> isspace c \<Longrightarrow> cur @ t \<noteq> [] \<Longrightarrow> isspace sp \<Longrightarrow>
     split_from cur (t @ sp # rest) = (cur @ t) # split_from [] rest"
  by (induction t arbitrary: cur) auto

lemma split_from_last:
  "\<forall>c \<in> set t. \<not> isspace c \<Longrightarrow> cur @ t \<noteq> [] \<Longrightarrow> split_from cur t = [cur @ t]"
  by (induction t arbitrary: cur) auto

lemma split_from_blank: "\<forall>c \<in> set s. isspace c \<Longrightarrow> split_from [] s = []"
  by (induction s) auto

lemma replace_char_append: "replace_char a b (xs @ ys) = replace_char a b xs @ replace_char a b ys"
  by (simp add: replace_char_def)

lemma replace_dash_digits:
  "\<forall>c \<in> set ds. isdigit c \<Longrightarrow> replace_char (CHR ''-'') (CHR '' '') ds = ds"
  by (induction ds) (auto simp: replace_char_def isdigit_def)

lemma isspace_space: "isspace (CHR '' '')"
  by (simp add: isspace_def)

lemma line_vars_dash:
  "line_vars (str_nat a @ CHR ''-'' # str_nat b @ CHR '' '' # str_nat p)
     = [str_nat a, str_nat b, str_nat p]"
proof -
  have "replace_char (CHR ''-'') (CHR '' '') (str_nat a @ CHR ''-'' # str_nat b @ CHR '' '' # str_nat p)
      = str_nat a @ CHR '' '' # str_nat b @ CHR '' '' # str_nat p"
    using replace_dash_digits[OF str_nat_digits]
    by (simp add: replace_char_def)
  then show ?thesis
    using str_nat_digits str_nat_nonempty
    by (simp add: line_vars_def split_def split_from_token split_from_last isdigit_not_space isspace_space)
qed

lemma line_vars_space:
  "line_vars (str_nat a @ CHR '' '' # str_nat b @ CHR '' '' # str_nat p)
     = [str_nat a, str_nat b, str_nat p]"
proof -
  have "replace_char (CHR ''-'') (CHR '' '') (str_nat a @ CHR '' '' # str_nat b @ CHR '' '' # str_nat p)
      = str_nat a @ CHR '' '' # str_nat b @ CHR '' '' # str_nat p"
    using replace_dash_digits[OF str_nat_digits]
    by (simp add: replace_char_def)
  then show ?thesis
    using str_nat_digits str_nat_nonempty
    by (simp add: line_vars_def split_def split_from_token split_from_last isdigit_not_space isspace_space)
qed

lemma line_vars_two:
  "line_vars (str_nat a @ CHR '' '' # str_nat p) = [str_nat a, str_nat p]"
proof -
  have "replace_char (CHR ''-'') (CHR '' '') (str_nat a @ CHR '' '' # str_nat p)
      = str_nat a @ CHR '' '' # str_nat p"
    using replace_dash_digits[OF str_nat_digits]
    by (simp add: replace_char_def)
  then show ?thesis
    using str_nat_digits str_nat_nonempty
    by (simp add: line_vars_def split_def split_from_token split_from_last isdigit_not_space isspace_space)
qed

lemma parse_line_three:
  "line_vars line = [str_nat a, str_nat b, str_nat p] \<Longrightarrow> parse_line line = Inr (int a, int b, int p)"
  by (simp add: parse_line_def item_def py_int_str_nat)

lemma parse_line_two:
  "line_vars line = [str_nat a, str_nat p] \<Longrightarrow> parse_line line = Inl IndexError"
  by (simp add: parse_line_def item_def py_int_str_nat)

lemma str_nat_5: "str_nat 5 = ''5''"
  by code_simp

lemma str_nat_10: "str_nat 10 = ''10''"
  by code_simp

text \<open>
  A file with the range line \<open>0-4 18\<close> and the single-integer line \<open>5 10\<close>, 100 points
  in all if the second line stood for group 5, is not parsed: the second line has two
  tokens only.
\<close>

theorem single_integer_range_counterexample:
  "parse_point_file [''0-4 18'' @ [CHR 0x0A], ''5 10'' @ [CHR 0x0A]] = Inl IndexError"
  by code_simp

text \<open>
  Claim C3, as amended. A line for the single group \<open>g\<close> gives both ends of its range,
  \<open>g-g p\<close> or \<open>g g p\<close>: the dash is turned into a space, so both are read alike, by the
  code that reads every range line, and \<open>p\<close> is assigned to the group \<open>g\<close> alone. A
  line \<open>g p\<close> with a single integer for the range is not accepted: \<open>g\<close> and \<open>p\<close> are taken
  for the ends of the range and reading the third token raises \<open>IndexError\<close>.
\<close>

theorem single_group_line:
  "parse_line (str_nat g @ CHR ''-'' # str_nat g @ CHR '' '' # str_nat p) = Inr (int g, int g, int p)
   \<and> parse_line (str_nat g @ CHR '' '' # str_nat g @ CHR '' '' # str_nat p) = Inr (int g, int g, int p)
   \<and> (int g \<notin> fst ` set d \<longrightarrow>
        parse_lines d [str_nat g @ CHR ''-'' # str_nat g @ CHR '' '' # str_nat p] = Inr (d @ [(int g, int p)]))
   \<and> parse_line (str_nat g @ CHR '' '' # str_nat p) = Inl IndexError
   \<and> parse_lines d [str_nat g @ CHR '' '' # str_nat p] = Inl IndexError"
  by (simp add: parse_line_three parse_line_two line_vars_dash line_vars_space line_vars_two)


lemma strip_blank: "\<forall>c \<in> set l. isspace c \<Longrightarrow> strip l = []"
proof -
  assume "\<forall>c \<in> set l. isspace c"
  then have "dropWhile isspace l = []" by (induction l) auto
  then show ?thesis by (simp only: strip_def rev.simps dropWhile.simps)
qed

lemma parse_line_blank: "\<forall>c \<in> set l. isspace c \<Longrightarrow> parse_line l = Inl IndexError"
proof -
  assume a: "\<forall>c \<in> set l. isspace c"
  have "\<forall>c \<in> set (replace_char (CHR ''-'') (CHR '' '') l). isspace c"
    using a by (auto simp: replace_char_def isspace_space)
  then have "line_vars l = []"
    by (simp add: line_vars_def split_def split_from_blank)
  then show ?thesis by (simp add: parse_line_def item_def)
qed

lemma parse_lines_append:
  "parse_lines d (xs @ ys) =
     (case parse_lines d xs of Inl e \<Rightarrow> Inl e | Inr d' \<Rightarrow> parse_lines d' ys)"
  by (induction xs arbitrary: d) (auto split: sum.splits)

lemma parse_lines_all_parsed:
  "parse_lines d content = Inr d' \<Longrightarrow> l \<in> set content \<Longrightarrow> \<exists>t. parse_line l = Inr t"
  by (induction content arbitrary: d) (auto split: sum.splits)

text \<open>
  Claim C10. A line of white space only is not skipped: its token list is empty and
  reading \<open>vars[0]\<close> raises \<open>IndexError\<close>, which is not a \<open>LioLoaderException\<close>. A file
  with such a line never parses, and it fails with \<open>IndexError\<close> whenever the lines before
  the blank one were read without an error.
\<close>

theorem blank_line_index_error:
  assumes "\<forall>c \<in> set l. isspace c"
  shows "parse_line (strip l) = Inl IndexError
    \<and> (parse_lines [] (map strip pre) = Inr d \<longrightarrow>
          parse_point_file (pre @ l # post) = Inl IndexError)
    \<and> (\<forall>d'. parse_point_file (pre @ l # post) \<noteq> Inr d')
    \<and> \<not> is_LioLoaderException IndexError"
proof -
  have b: "parse_line (strip l) = Inl IndexError"
    using assms by (simp add: strip_blank parse_line_blank)
  have "parse_point_file (pre @ l # post) = Inl IndexError"
    if "parse_lines [] (map strip pre) = Inr d"
    using that b by (simp add: parse_point_file_def parse_lines_append)
  moreover have "parse_point_file (pre @ l # post) \<noteq> Inr d'" for d'
  proof
    assume "parse_point_file (pre @ l # post) = Inr d'"
    then have "parse_lines [] (map strip (pre @ l # post)) = Inr d'"
      by (auto simp: parse_point_file_def split: sum.splits if_splits)
    from parse_lines_all_parsed[OF this, of "strip l"] b show False by auto
  qed
  ultimately show ?thesis using b by simp
qed

lemma assign_groups_keys:
  "assign_groups d gs p = Inr d' \<Longrightarrow>
     set gs \<inter> fst ` set d = {} \<and> fst ` set d' = fst ` set d \<union> set gs"
  by (induction d gs p rule: assign_groups.induct) (auto split: if_splits)

lemma assign_groups_error:
  "assign_groups d gs p = Inl e \<Longrightarrow> e = DuplicatedGroups"
  by (induction d gs p rule: assign_groups.induct) (auto split: if_splits)

lemma parse_lines_fresh:
  "parse_lines d (map strip content) = Inr d' \<Longrightarrow> y \<in> set content \<Longrightarrow>
     line_groups y \<inter> fst ` set d = {}"
proof (induction content arbitrary: d)
  case Nil
  then show ?case by simp
next
  case (Cons l rest)
  from Cons.prems(1) obtain a b p d1 where
    pl: "parse_line (strip l) = Inr (a, b, p)" and
    ag: "assign_groups d [a..b] p = Inr d1" and
    r: "parse_lines d1 (map strip rest) = Inr d'"
    by (auto split: sum.splits)
  show ?case
  proof (cases "y = l")
    case True
    then show ?thesis using pl assign_groups_keys[OF ag] by (simp add: line_groups_def)
  next
    case False
    then have "y \<in> set rest" using Cons.prems(2) by simp
    from Cons.IH[OF r this] assign_groups_keys[OF ag] show ?thesis by auto
  qed
qed

lemma parse_lines_disjoint:
  "parse_lines d (map strip content) = Inr d' \<Longrightarrow> i < j \<Longrightarrow> j < length content \<Longrightarrow>
     line_groups (content ! i) \<inter> line_groups (content ! j) = {}"
proof (induction content arbitrary: d i j)
  case Nil
  then show ?case by simp
next
  case (Cons l rest)
  from Cons.prems(1) obtain a b p d1 where
    pl: "parse_line (strip l) = Inr (a, b, p)" and
    ag: "assign_groups d [a..b] p = Inr d1" and
    r: "parse_lines d1 (map strip rest) = Inr d'"
    by (auto split: sum.splits)
  from Cons.prems obtain j' where j: "j = Suc j'" "j' < length rest"
    by (cases j) auto
  show ?case
  proof (cases i)
    case 0
    have "rest ! j' \<in> set rest" using j by simp
    from parse_lines_fresh[OF r this] assign_groups_keys[OF ag] pl 0 j
    show ?thesis by (auto simp: line_groups_def)
  next
    case (Suc i')
    with Cons.prems j have "i' < j'" by simp
    from Cons.IH[OF r this j(2)] Suc j show ?thesis by simp
  qed
qed

lemma parse_lines_well_formed_error:
  "\<forall>l \<in> set content. well_formed_line l \<Longrightarrow> parse_lines d (map strip content) = Inl e \<Longrightarrow>
     e = DuplicatedGroups"
proof (induction content arbitrary: d)
  case Nil
  then show ?case by simp
next
  case (Cons l rest)
  then show ?case
    by (auto simp: well_formed_line_def split: sum.splits dest: assign_groups_error)
qed

lemma two_positions:
  assumes "mset lines = mset (xs @ l1 # ys @ l2 # zs)"
  shows "\<exists>i j. i < j \<and> j < length lines \<and>
           ((lines ! i = l1 \<and> lines ! j = l2) \<or> (lines ! i = l2 \<and> lines ! j = l1))"
proof -
  have "l1 \<in># mset lines" using assms by simp
  then have "l1 \<in> set lines" by simp
  then obtain as bs where sp: "lines = as @ l1 # bs" by (auto simp: in_set_conv_decomp)
  with assms have "mset (as @ bs) = mset (xs @ ys @ l2 # zs)" by simp
  then have "l2 \<in># mset (as @ bs)" by simp
  then have "l2 \<in> set as \<or> l2 \<in> set bs" by auto
  then show ?thesis
  proof
    assume "l2 \<in> set as"
    then obtain k where k: "k < length as" "as ! k = l2" by (auto simp: in_set_conv_nth)
    then have "lines ! k = l2" "lines ! length as = l1" using sp by (simp_all add: nth_append)
    with k sp show ?thesis by (intro exI[of _ k] exI[of _ "length as"]) simp
  next
    assume "l2 \<in> set bs"
    then obtain k where k: "k < length bs" "bs ! k = l2" by (auto simp: in_set_conv_nth)
    then have "lines ! (length as + Suc k) = l2" "lines ! length as = l1"
      using sp by (simp_all add: nth_append)
    with k sp show ?thesis
      by (intro exI[of _ "length as"] exI[of _ "length as + Suc k"]) simp
  qed
qed

lemma duplicate_group_permutation:
  assumes wf: "\<forall>l \<in> set (xs @ l1 # ys @ l2 # zs). well_formed_line l"
    and g1: "g \<in> line_groups l1" and g2: "g \<in> line_groups l2"
    and perm: "mset lines = mset (xs @ l1 # ys @ l2 # zs)"
  shows "parse_point_file lines = Inl DuplicatedGroups"
proof -
  from two_positions[OF perm] obtain i j where
    ij: "i < j" "j < length lines" and
    "g \<in> line_groups (lines ! i) \<inter> line_groups (lines ! j)"
    using g1 g2 by auto
  then have ne: "line_groups (lines ! i) \<inter> line_groups (lines ! j) \<noteq> {}" by auto
  have "set lines = set (xs @ l1 # ys @ l2 # zs)" using perm by (rule mset_eq_setD)
  with wf have wf': "\<forall>l \<in> set lines. well_formed_line l" by simp
  show ?thesis
  proof (cases "parse_lines [] (map strip lines)")
    case (Inl e)
    with parse_lines_well_formed_error[OF wf'] show ?thesis
      by (simp add: parse_point_file_def)
  next
    case (Inr d')
    from parse_lines_disjoint[OF this ij] ne show ?thesis by simp
  qed
qed


text \<open>
  Claim C7. Let two lines \<open>l1\<close> and \<open>l2\<close> of a point file assign a common group \<open>g\<close>, and
  let the lines up to the second of them be well formed. Then \<open>parse_point_file\<close> fails
  with "Duplicated groups in point file"; \<open>l1\<close> and \<open>l2\<close> are interchangeable here, so it
  does not matter which of the two comes first. When the lines after them are well formed
  too, every reordering of the lines of the file fails in the same way.
\<close>

theorem duplicate_group_any_order:
  assumes wf: "\<forall>l \<in> set (xs @ l1 # ys @ [l2]). well_formed_line l"
    and g1: "g \<in> line_groups l1" and g2: "g \<in> line_groups l2"
  shows "parse_point_file (xs @ l1 # ys @ l2 # zs) = Inl DuplicatedGroups
    \<and> ((\<forall>l \<in> set zs. well_formed_line l) \<longrightarrow>
         (\<forall>lines. mset lines = mset (xs @ l1 # ys @ l2 # zs) \<longrightarrow>
            parse_point_file lines = Inl DuplicatedGroups))"
proof -
  have wf0: "\<forall>l \<in> set (xs @ l1 # ys @ l2 # []). well_formed_line l"
    using wf by simp
  have "parse_point_file (xs @ l1 # ys @ l2 # []) = Inl DuplicatedGroups"
    by (rule duplicate_group_permutation[OF wf0 g1 g2 refl])
  then have "parse_lines [] (map strip (xs @ l1 # ys @ [l2])) = Inl DuplicatedGroups"
    by (auto simp: parse_point_file_def split: sum.splits if_splits)
  then have "parse_lines [] (map strip (xs @ l1 # ys @ [l2]) @ map strip zs)
      = Inl DuplicatedGroups"
    by (simp only: parse_lines_append sum.case)
  then have "parse_lines [] (map strip (xs @ l1 # ys @ l2 # zs)) = Inl DuplicatedGroups"
    by simp
  then have first: "parse_point_file (xs @ l1 # ys @ l2 # zs) = Inl DuplicatedGroups"
    by (simp only: parse_point_file_def sum.case)
  have "parse_point_file lines = Inl DuplicatedGroups"
    if z: "\<forall>l \<in> set zs. well_formed_line l"
      and perm: "mset lines = mset (xs @ l1 # ys @ l2 # zs)" for lines
  proof -
    have "\<forall>l \<in> set (xs @ l1 # ys @ l2 # zs). well_formed_line l"
      using wf z by auto
    from duplicate_group_permutation[OF this g1 g2 perm] show ?thesis .
  qed
  with first show ?thesis by blast
qed

lemma duplicate_example_facts:
  "well_formed_line ''0-0 50''" "well_formed_line ''0-1 50''"
  "line_groups ''0-0 50'' = {0}" "line_groups ''0-1 50'' = {0, 1}"
  by (code_simp+)

theorem duplicate_group_any_order_witness:
  "parse_point_file [''0-0 50'', ''0-1 50'', ''x''] = Inl DuplicatedGroups
   \<and> parse_point_file [''0-1 50'', ''0-0 50''] = Inl DuplicatedGroups"
proof -
  have "parse_point_file ([] @ ''0-0 50'' # [] @ ''0-1 50'' # [''x'']) = Inl DuplicatedGroups"
    using duplicate_group_any_order [of "[]" "''0-0 50''" "[]" "''0-1 50''" 0 "[''x'']"]
    by (simp add: duplicate_example_facts)
  moreover have "parse_point_file [''0-1 50'', ''0-0 50''] = Inl DuplicatedGroups"
    using duplicate_group_any_order [of "[]" "''0-0 50''" "[]" "''0-1 50''" 0 "[]"]
    by (simp add: duplicate_example_facts)
  ultimately show ?thesis
    by simp
qed

lemma blank_example: "parse_lines [] (map strip [''0-0 100'' @ [CHR 0x0A]]) = Inr [(0, 100)]"
  by code_simp

lemma blank_example_space: "\<forall>c \<in> set [CHR '' '', CHR 0x0A]. isspace c"
  by (simp add: isspace_def)

theorem blank_line_index_error_witness:
  "parse_point_file [''0-0 100'' @ [CHR 0x0A], [CHR '' '', CHR 0x0A]] = Inl IndexError"
  using blank_line_index_error [OF blank_example_space, of "[''0-0 100'' @ [CHR 0x0A]]"
      "[(0, 100)]" "[]"] blank_example
  by simp

theorem single_group_line_witness:
  "parse_line ''5-5 10'' = Inr (5, 5, 10) \<and> parse_line ''5 5 10'' = Inr (5, 5, 10)
   \<and> parse_lines [] [''5-5 10''] = Inr [(5, 10)]
   \<and> parse_line ''5 10'' = Inl IndexError"
  using single_group_line [of 5 10 "[]"]
  by (simp add: str_nat_5 str_nat_10)

section \<open>Properties of the name pattern\<close>

lemma islower_not_digit: "islower_ascii c \<Longrightarrow> \<not> isdigit c"
  by (auto simp: islower_ascii_def isdigit_def)

lemma letters_rest_no_digit:
  assumes "\<forall>c \<in> set ls. islower_ascii c" and "rest = [] \<or> rest = [CHR 0x0A]"
  shows "takeWhile isdigit (ls @ rest) = []"
proof (cases ls)
  case Nil
  with assms(2) show ?thesis by (auto simp: isdigit_def)
next
  case (Cons c cs)
  with assms(1) show ?thesis by (simp add: islower_not_digit)
qed

lemma rest_no_lower:
  "rest = [] \<or> rest = [CHR 0x0A] \<Longrightarrow> takeWhile islower_ascii rest = [] \<and> dropWhile islower_ascii rest = rest"
  by (auto simp: islower_ascii_def)

lemma match_here_parts:
  assumes "name_parts s [] d ds ls rest" and "rest = [] \<or> rest = [CHR 0x0A]"
  shows "match_here s = Some (d, ds, ls)"
proof -
  from assms(1) have s: "s = CHR ''.'' # d # ds @ ls @ rest"
    and d: "d = CHR ''i'' \<or> d = CHR ''o''" and ne: "ds \<noteq> []"
    and dig: "\<forall>c \<in> set ds. isdigit c" and low: "\<forall>c \<in> set ls. islower_ascii c"
    by (simp_all add: name_parts_def)
  have t1: "takeWhile isdigit (ds @ ls @ rest) = ds"
    using dig letters_rest_no_digit[OF low assms(2)] by (simp add: takeWhile_append2)
  have "dropWhile isdigit (ls @ rest) = ls @ rest"
    using letters_rest_no_digit[OF low assms(2)]
    by (metis append_Nil takeWhile_dropWhile_id)
  then have d1: "dropWhile isdigit (ds @ ls @ rest) = ls @ rest"
    using dig by (simp add: dropWhile_append2)
  have t2: "takeWhile islower_ascii (ls @ rest) = ls"
    using low rest_no_lower[OF assms(2)] by (simp add: takeWhile_append2)
  have d2: "dropWhile islower_ascii (ls @ rest) = rest"
    using low rest_no_lower[OF assms(2)] by (simp add: dropWhile_append2)
  show ?thesis
    unfolding s match_here_def Let_def list.case t1 d1 t2 d2 using d ne assms(2)
    by simp
qed

lemma match_here_SomeD:
  assumes "match_here s = Some (d, ds, ls)"
  shows "\<exists>rest. (rest = [] \<or> rest = [CHR 0x0A]) \<and> name_parts s [] d ds ls rest"
proof -
  from assms obtain dot d' r where s0: "s = dot # d' # r"
    by (cases s; cases "tl s") (simp_all add: match_here_def)
  let ?r1 = "dropWhile isdigit r"
  let ?r2 = "dropWhile islower_ascii ?r1"
  from assms have dot: "dot = CHR ''.''" and d': "d' = CHR ''i'' \<or> d' = CHR ''o''"
    unfolding s0 match_here_def by (simp_all split: if_splits)
  with assms have "(if takeWhile isdigit r \<noteq> [] \<and> (?r2 = [] \<or> ?r2 = [CHR 0x0A])
      then Some (d', takeWhile isdigit r, takeWhile islower_ascii ?r1) else None)
      = Some (d, ds, ls)"
    unfolding s0 match_here_def Let_def by simp
  then have dd: "d = d'" and ds: "ds = takeWhile isdigit r"
    and ls: "ls = takeWhile islower_ascii ?r1"
    and ne: "ds \<noteq> []" and r2: "?r2 = [] \<or> ?r2 = [CHR 0x0A]"
    by (simp_all split: if_splits)
  have "r = ds @ ls @ ?r2"
    by (simp add: ds ls)
  moreover have "\<forall>c \<in> set ds. isdigit c"
    unfolding ds by (auto dest: set_takeWhileD)
  moreover have "\<forall>c \<in> set ls. islower_ascii c"
    unfolding ls by (auto dest: set_takeWhileD)
  ultimately have "name_parts s [] d ds ls ?r2"
    using s0 dot d' dd ne by (simp add: name_parts_def)
  with r2 show ?thesis
    by blast
qed

lemma match_here_no_dot:
  assumes "match_here s = Some m"
  shows "CHR ''.'' \<notin> set (tl s)"
proof -
  obtain d ds ls where m: "m = (d, ds, ls)" by (cases m) auto
  from match_here_SomeD[OF assms[unfolded m]] obtain rest where
    r: "rest = [] \<or> rest = [CHR 0x0A]" and p: "name_parts s [] d ds ls rest" by blast
  from p have "\<forall>c \<in> set ds. c \<noteq> CHR ''.''" "\<forall>c \<in> set ls. c \<noteq> CHR ''.''" "d \<noteq> CHR ''.''"
    by (auto simp: name_parts_def isdigit_def islower_ascii_def)
  moreover from r have "\<forall>c \<in> set rest. c \<noteq> CHR ''.''" by auto
  moreover from p have "tl s = d # ds @ ls @ rest" by (simp add: name_parts_def)
  ultimately show ?thesis by auto
qed

lemma search_suffix:
  "search name = Some m \<Longrightarrow> \<exists>base s. name = base @ s \<and> match_here s = Some m"
proof (induction name)
  case Nil
  then show ?case by simp
next
  case (Cons c cs)
  show ?case
  proof (cases "match_here (c # cs)")
    case None
    with Cons obtain base s where "cs = base @ s" "match_here s = Some m" by auto
    then have "c # cs = (c # base) @ s \<and> match_here s = Some m" by simp
    then show ?thesis by blast
  next
    case (Some m')
    with Cons.prems have "c # cs = [] @ (c # cs) \<and> match_here (c # cs) = Some m" by simp
    then show ?thesis by blast
  qed
qed

lemma search_found:
  "match_here s = Some m \<Longrightarrow> search (base @ s) = Some m"
proof (induction base)
  case Nil
  then show ?case by (cases s) auto
next
  case (Cons c base)
  from Cons.prems have "s \<noteq> []" by (auto simp: match_here_def)
  with Cons.prems have "hd s = CHR ''.''"
    by (auto simp: match_here_def split: list.splits if_splits)
  with \<open>s \<noteq> []\<close> have "CHR ''.'' \<in> set (base @ s)" by (cases s) auto
  then have "match_here (c # base @ s) = None"
    using match_here_no_dot[of "c # base @ s"] by (cases "match_here (c # base @ s)") auto
  with Cons show ?case by simp
qed

lemma search_name_parts:
  assumes "name_parts name base d ds ls rest" and "rest = [] \<or> rest = [CHR 0x0A]"
  shows "search name = Some (d, ds, ls)"
proof -
  from assms(1) have "name_parts (CHR ''.'' # d # ds @ ls @ rest) [] d ds ls rest"
    and n: "name = base @ (CHR ''.'' # d # ds @ ls @ rest)"
    by (simp_all add: name_parts_def)
  from match_here_parts[OF this(1) assms(2)] show ?thesis
    unfolding n by (rule search_found)
qed

lemma search_None_iff: "search name = None \<longleftrightarrow> \<not> name_pattern name"
proof
  assume n: "search name = None"
  show "\<not> name_pattern name"
  proof
    assume "name_pattern name"
    then obtain base d ds ls rest where
      "rest = [] \<or> rest = [CHR 0x0A]" "name_parts name base d ds ls rest"
      unfolding name_pattern_def by blast
    from search_name_parts[OF this(2) this(1)] n show False by simp
  qed
next
  assume np: "\<not> name_pattern name"
  show "search name = None"
  proof (rule ccontr)
    assume "search name \<noteq> None"
    then obtain d ds ls where "search name = Some (d, ds, ls)" by auto
    from search_suffix[OF this] obtain base s where
      n: "name = base @ s" and m: "match_here s = Some (d, ds, ls)" by blast
    from match_here_SomeD[OF m] obtain rest where
      r: "rest = [] \<or> rest = [CHR 0x0A]" and p: "name_parts s [] d ds ls rest" by blast
    from p n have "name_parts name base d ds ls rest" by (simp add: name_parts_def)
    with r np show False unfolding name_pattern_def by blast
  qed
qed

text \<open>
  Claim C4, as amended. For a member name without a path separator, "Unsupported file in
  test archive" is raised exactly when the name does not end with a match of
  \<open>\.(i|o)(\d+)([a-z]*)$\<close>: any base name, which may be empty, a dot, \<open>i\<close> or \<open>o\<close>, one or
  more digits, lowercase letters, and then the end of the name or one final line feed.
  Every name of that shape is classified by its parts: an input when the marker is \<open>i\<close>,
  the group that the digits denote, and the letters as label.
\<close>

theorem unsupported_iff_no_match:
  assumes "CHR ''/'' \<notin> set name" and "CHR 0x5C \<notin> set name"
  shows "(classify name = Inl UnsupportedFile \<longleftrightarrow> \<not> name_pattern name)
    \<and> (\<forall>base d ds ls rest.
          (rest = [] \<or> rest = [CHR 0x0A]) \<and> name_parts name base d ds ls rest \<longrightarrow>
          classify name = Inr (d = CHR ''i'', int (decimal ds), ls))"
proof -
  have c: "classify name = Inr (d = CHR ''i'', int (decimal ds), ls)"
    if "rest = [] \<or> rest = [CHR 0x0A]" and "name_parts name base d ds ls rest"
    for base d ds ls rest
  proof -
    from that(2) have "ds \<noteq> []" "\<forall>c \<in> set ds. isdigit c" by (simp_all add: name_parts_def)
    then have "py_int ds = Inr (int (decimal ds))" by (rule py_int_digits)
    with search_name_parts[OF that(2) that(1)] assms show ?thesis
      by (simp add: classify_def)
  qed
  have "classify name = Inl UnsupportedFile \<longleftrightarrow> \<not> name_pattern name"
  proof
    assume u: "classify name = Inl UnsupportedFile"
    show "\<not> name_pattern name"
    proof
      assume "name_pattern name"
      then obtain base d ds ls rest where
        "rest = [] \<or> rest = [CHR 0x0A]" "name_parts name base d ds ls rest"
        unfolding name_pattern_def by blast
      from c[OF this] u show False by simp
    qed
  next
    assume "\<not> name_pattern name"
    then have "search name = None" by (simp add: search_None_iff)
    with assms show "classify name = Inl UnsupportedFile" by (simp add: classify_def)
  qed
  with c show ?thesis by blast
qed

text \<open>
  The name \<open>.i1\<close> has no base name before the dot, so it does not have the shape that the
  specification asks for; the code accepts it as the input of group 1 with an empty label.
\<close>

theorem empty_base_name_counterexample:
  "\<not> spec_name_pattern ''.i1'' \<and> classify ''.i1'' = Inr (True, 1, [])"
proof
  show "\<not> spec_name_pattern ''.i1''"
  proof
    assume "spec_name_pattern ''.i1''"
    then obtain base d ds ls where ne: "base \<noteq> []" "ds \<noteq> []"
      and eq: "''.i1'' = base @ CHR ''.'' # d # ds @ ls"
      by (auto simp: spec_name_pattern_def name_parts_def)
    from eq have "length ''.i1'' = length (base @ CHR ''.'' # d # ds @ ls)"
      by (rule arg_cong)
    then have "3 = length base + 2 + length ds + length ls"
      by simp
    moreover from ne have "0 < length base" "0 < length ds"
      by simp_all
    ultimately show False
      by linarith
  qed
  show "classify ''.i1'' = Inr (True, 1, [])"
    by code_simp
qed

lemma name_parts_example: "name_parts ''t.i01b'' ''t'' (CHR ''i'') ''01'' ''b'' []"
  by (simp add: name_parts_def isdigit_def islower_ascii_def)

lemma decimal_example: "decimal ''01'' = 1"
  by (simp add: decimal_def digit_value_def)

theorem unsupported_iff_no_match_witness:
  "classify ''t.i01b'' = Inr (True, 1, ''b'') \<and> name_pattern ''t.i01b''"
proof -
  have sep: "CHR ''/'' \<notin> set ''t.i01b''" "CHR 0x5C \<notin> set ''t.i01b''"
    by simp_all
  from unsupported_iff_no_match [OF sep] name_parts_example
  have c: "classify ''t.i01b'' = Inr (CHR ''i'' = CHR ''i'', int (decimal ''01''), ''b'')"
    by blast
  then have "classify ''t.i01b'' \<noteq> Inl UnsupportedFile"
    by simp
  with unsupported_iff_no_match [OF sep] have "name_pattern ''t.i01b''"
    by blast
  with c show ?thesis
    by (simp add: decimal_example)
qed

section \<open>Properties of the collected test files\<close>

lemma add_test_file_Inr:
  assumes "classify n = Inr (dir, g, s)"
  shows "add_test_file tf n =
     Inr (AList.update g
           (AList.update s (set_file dir n (testcase_of (in_group_of tf g) s)) (in_group_of tf g)) tf)"
  using assms by (simp add: add_test_file_def Let_def in_group_of_def testcase_of_def set_file_def)

lemma add_test_file_error:
  "classify n = Inl e \<Longrightarrow> add_test_file tf n = Inl e"
  by (simp add: add_test_file_def)

lemma labels_in_group_of: "labels tf g = fst ` set (in_group_of tf g)"
  by (simp add: labels_def in_group_of_def split: option.splits)

lemma test_file_in_group_of:
  "test_file tf g s d =
     (if d then fst (testcase_of (in_group_of tf g) s) else snd (testcase_of (in_group_of tf g) s))"
  by (simp add: test_file_def in_group_of_def testcase_of_def split: option.splits)

lemma in_group_of_update:
  "in_group_of (AList.update g m tf) g' = (if g' = g then m else in_group_of tf g')"
  by (simp add: in_group_of_def update_conv')

lemma testcase_of_update:
  "testcase_of (AList.update s t m) s' = (if s' = s then t else testcase_of m s')"
  by (simp add: testcase_of_def update_conv')

lemma add_test_file_eq:
  assumes "classify n = Inr (dir, g, s)" and "add_test_file tf n = Inr tf'"
  shows "tf' = AList.update g
           (AList.update s (set_file dir n (testcase_of (in_group_of tf g) s)) (in_group_of tf g)) tf"
  using assms(2) unfolding add_test_file_Inr[OF assms(1)] by simp

lemma add_test_file_keys:
  assumes "classify n = Inr (dir, g, s)" and "add_test_file tf n = Inr tf'"
  shows "fst ` set tf' = insert g (fst ` set tf)"
  unfolding add_test_file_eq[OF assms] by (simp add: dom_update)

lemma add_test_file_distinct:
  assumes "classify n = Inr (dir, g, s)" and "add_test_file tf n = Inr tf'"
    and "distinct (map fst tf)"
  shows "distinct (map fst tf')"
  unfolding add_test_file_eq[OF assms(1,2)] using assms(3) by (simp add: distinct_update)

lemma add_test_file_labels:
  assumes "classify n = Inr (dir, g, s)" and "add_test_file tf n = Inr tf'"
  shows "labels tf' g' = (if g' = g then insert s (labels tf g) else labels tf g')"
  unfolding add_test_file_eq[OF assms]
  by (simp add: labels_in_group_of in_group_of_update dom_update)

lemma add_test_file_test_file:
  assumes "classify n = Inr (dir, g, s)" and "add_test_file tf n = Inr tf'"
  shows "test_file tf' g' s' d' =
           (if g' = g \<and> s' = s \<and> d' = dir then Some n else test_file tf g' s' d')"
  unfolding add_test_file_eq[OF assms] test_file_in_group_of
  by (simp add: in_group_of_update testcase_of_update set_file_def)

lemma add_test_file_inner_distinct:
  assumes "classify n = Inr (dir, g, s)" and "add_test_file tf n = Inr tf'"
    and "\<forall>g. distinct (map fst (in_group_of tf g))"
  shows "distinct (map fst (in_group_of tf' g'))"
  unfolding add_test_file_eq[OF assms(1,2)] using assms(3)
  by (simp add: in_group_of_update distinct_update)


lemma collect_test_files_Inr:
  "collect_test_files tf0 names = Inr tf \<Longrightarrow> n \<in> set names \<Longrightarrow> \<exists>c. classify n = Inr c"
proof (induction names arbitrary: tf0)
  case Nil
  then show ?case by simp
next
  case (Cons a names)
  then show ?case
    by (cases "classify a") (auto simp: add_test_file_error split: sum.splits)
qed

lemma collect_test_files_succeeds:
  "\<forall>n \<in> set names. \<exists>c. classify n = Inr c \<Longrightarrow> \<exists>tf. collect_test_files tf0 names = Inr tf"
proof (induction names arbitrary: tf0)
  case Nil
  then show ?case by simp
next
  case (Cons a names)
  then obtain dir g s where "classify a = Inr (dir, g, s)" by force
  from add_test_file_Inr[OF this, of tf0] Cons show ?case by simp
qed

lemma collect_test_files_keys:
  "collect_test_files tf0 names = Inr tf \<Longrightarrow>
     fst ` set tf = fst ` set tf0 \<union> {g. \<exists>n \<in> set names. member_group n = Some g}"
proof (induction names arbitrary: tf0)
  case Nil
  then show ?case by simp
next
  case (Cons a names)
  from Cons.prems obtain tf1 where a: "add_test_file tf0 a = Inr tf1"
    and r: "collect_test_files tf1 names = Inr tf"
    by (auto split: sum.splits)
  from a obtain dir g s where c: "classify a = Inr (dir, g, s)"
    by (cases "classify a") (auto simp: add_test_file_error)
  have "member_group a = Some g" using c by (simp add: member_group_def)
  with Cons.IH[OF r] add_test_file_keys[OF c a] show ?case by auto
qed

lemma collect_test_files_distinct:
  "collect_test_files tf0 names = Inr tf \<Longrightarrow> distinct (map fst tf0) \<Longrightarrow> distinct (map fst tf)"
proof (induction names arbitrary: tf0)
  case Nil
  then show ?case by simp
next
  case (Cons a names)
  from Cons.prems obtain tf1 where a: "add_test_file tf0 a = Inr tf1"
    and r: "collect_test_files tf1 names = Inr tf"
    by (auto split: sum.splits)
  from a obtain dir g s where c: "classify a = Inr (dir, g, s)"
    by (cases "classify a") (auto simp: add_test_file_error)
  from Cons.IH[OF r add_test_file_distinct[OF c a Cons.prems(2)]] show ?case .
qed

lemma collect_test_files_inner_distinct:
  "collect_test_files tf0 names = Inr tf \<Longrightarrow> \<forall>g. distinct (map fst (in_group_of tf0 g)) \<Longrightarrow>
     distinct (map fst (in_group_of tf g))"
proof (induction names arbitrary: tf0)
  case Nil
  then show ?case by simp
next
  case (Cons a names)
  from Cons.prems obtain tf1 where a: "add_test_file tf0 a = Inr tf1"
    and r: "collect_test_files tf1 names = Inr tf"
    by (auto split: sum.splits)
  from a obtain dir g s where c: "classify a = Inr (dir, g, s)"
    by (cases "classify a") (auto simp: add_test_file_error)
  have "\<forall>g. distinct (map fst (in_group_of tf1 g))"
    using add_test_file_inner_distinct[OF c a Cons.prems(2)] by blast
  from Cons.IH[OF r this] show ?case .
qed

lemma collect_test_files_labels:
  "collect_test_files tf0 names = Inr tf \<Longrightarrow>
     labels tf g = labels tf0 g \<union> {s. \<exists>n \<in> set names. \<exists>d. classify n = Inr (d, g, s)}"
proof (induction names arbitrary: tf0)
  case Nil
  then show ?case by simp
next
  case (Cons a names)
  from Cons.prems obtain tf1 where a: "add_test_file tf0 a = Inr tf1"
    and r: "collect_test_files tf1 names = Inr tf"
    by (auto split: sum.splits)
  from a obtain dir g' s' where c: "classify a = Inr (dir, g', s')"
    by (cases "classify a") (auto simp: add_test_file_error)
  have ca: "(\<exists>d. classify a = Inr (d, g, s)) \<longleftrightarrow> g = g' \<and> s = s'" for s
    unfolding c by blast
  define S where "S = {s. \<exists>n \<in> set names. \<exists>d. classify n = Inr (d, g, s)}"
  have "{s. \<exists>n \<in> set (a # names). \<exists>d. classify n = Inr (d, g, s)}
      = (if g = g' then {s'} else {}) \<union> S"
    using ca unfolding S_def by (cases "g = g'") auto
  moreover have "labels tf g = labels tf1 g \<union> S"
    unfolding S_def by (rule Cons.IH[OF r])
  moreover have "labels tf1 g = (if g = g' then insert s' (labels tf0 g) else labels tf0 g)"
    using add_test_file_labels[OF c a, of g] by (cases "g = g'") simp_all
  ultimately show ?case
    by (cases "g = g'") auto
qed

lemma collect_test_files_test_file:
  "collect_test_files tf0 names = Inr tf \<Longrightarrow>
     test_file tf g s d =
       (case filter (\<lambda>n. classify n = Inr (d, g, s)) names of
          [] \<Rightarrow> test_file tf0 g s d
        | n # ns \<Rightarrow> Some (last (n # ns)))"
proof (induction names arbitrary: tf0)
  case Nil
  then show ?case by simp
next
  case (Cons a names)
  from Cons.prems obtain tf1 where a: "add_test_file tf0 a = Inr tf1"
    and r: "collect_test_files tf1 names = Inr tf"
    by (auto split: sum.splits)
  from a obtain dir g' s' where c: "classify a = Inr (dir, g', s')"
    by (cases "classify a") (auto simp: add_test_file_error)
  have ih: "test_file tf g s d =
       (case filter (\<lambda>n. classify n = Inr (d, g, s)) names of
          [] \<Rightarrow> test_file tf1 g s d
        | n # ns \<Rightarrow> Some (last (n # ns)))"
    by (rule Cons.IH[OF r])
  have st: "test_file tf1 g s d =
      (if g = g' \<and> s = s' \<and> d = dir then Some a else test_file tf0 g s d)"
    by (rule add_test_file_test_file[OF c a])
  have ca: "classify a = Inr (d, g, s) \<longleftrightarrow> g = g' \<and> s = s' \<and> d = dir"
    unfolding c by blast
  show ?case
  proof (cases "g = g' \<and> s = s' \<and> d = dir")
    case True
    then have f: "filter (\<lambda>n. classify n = Inr (d, g, s)) (a # names)
        = a # filter (\<lambda>n. classify n = Inr (d, g, s)) names"
      using ca by simp
    have t: "test_file tf1 g s d = Some a"
      using st True by simp
    show ?thesis
      unfolding f ih t by (simp split: list.splits)
  next
    case False
    then have f: "filter (\<lambda>n. classify n = Inr (d, g, s)) (a # names)
        = filter (\<lambda>n. classify n = Inr (d, g, s)) names"
      using ca by simp
    have t: "test_file tf1 g s d = test_file tf0 g s d"
      using st False by simp
    show ?thesis
      unfolding f ih t by (rule refl)
  qed
qed


lemma test_file_Nil: "test_file [] g s d = None"
  by (simp add: test_file_def)

lemma overwrite_example_collect:
  "collect_test_files [] [''a.i01'', ''b.i01''] = Inr [(1, [([], (Some ''b.i01'', None))])]"
  by code_simp

lemma overwrite_example_import:
  "get_task None [''0-1 50'']
     [(''x.i0'', ''in0''), (''x.o0'', ''out0''),
      (''a.i01'', ''first''), (''b.i01'', ''second''), (''c.o01'', ''out1'')]
   = Inr \<lparr>score_type_parameters = [(50, ''000''), (50, ''001'')],
          testcases =
            [(''0'', \<lparr>codename = ''0'', public = True,
                      input_digest = ''in0'', output_digest = ''out0''\<rparr>),
             (''1'', \<lparr>codename = ''1'', public = True,
                      input_digest = ''second'', output_digest = ''out1''\<rparr>)]\<rparr>"
  by code_simp

text \<open>
  Claim C9. Member names that classify to the same group, label and direction raise no
  error: collecting succeeds whenever every name is accepted on its own, and the entry of
  a group, label and direction holds the last name of the list that classifies to them.
  With the members \<open>a.i01\<close> and \<open>b.i01\<close> the input of group 1 is \<open>b.i01\<close>, and the test
  case of the import is made from the content of \<open>b.i01\<close> alone.
\<close>

theorem later_member_overwrites:
  assumes "\<forall>n \<in> set names. \<exists>c. classify n = Inr c"
  shows "(\<exists>tf. collect_test_files [] names = Inr tf
            \<and> (\<forall>g s d. test_file tf g s d =
                 (case filter (\<lambda>n. classify n = Inr (d, g, s)) names of
                    [] \<Rightarrow> None
                  | n # ns \<Rightarrow> Some (last (n # ns)))))
    \<and> collect_test_files [] [''a.i01'', ''b.i01''] = Inr [(1, [([], (Some ''b.i01'', None))])]
    \<and> get_task None [''0-1 50'']
         [(''x.i0'', ''in0''), (''x.o0'', ''out0''),
          (''a.i01'', ''first''), (''b.i01'', ''second''), (''c.o01'', ''out1'')]
       = Inr \<lparr>score_type_parameters = [(50, ''000''), (50, ''001'')],
              testcases =
                [(''0'', \<lparr>codename = ''0'', public = True,
                          input_digest = ''in0'', output_digest = ''out0''\<rparr>),
                 (''1'', \<lparr>codename = ''1'', public = True,
                          input_digest = ''second'', output_digest = ''out1''\<rparr>)]\<rparr>"
proof -
  from collect_test_files_succeeds[OF assms, of "[]"] obtain tf where
    tf: "collect_test_files [] names = Inr tf" by blast
  have "test_file tf g s d =
      (case filter (\<lambda>n. classify n = Inr (d, g, s)) names of
         [] \<Rightarrow> None
       | n # ns \<Rightarrow> Some (last (n # ns)))" for g s d
    using collect_test_files_test_file[OF tf, of g s d]
    by (simp add: test_file_Nil cong: list.case_cong)
  with tf show ?thesis
    using overwrite_example_collect overwrite_example_import by blast
qed

lemma overwrite_example_classify_a: "classify ''a.i01'' = Inr (True, 1, [])"
  by code_simp

lemma overwrite_example_classify_b: "classify ''b.i01'' = Inr (True, 1, [])"
  by code_simp

lemmas overwrite_example_classify = overwrite_example_classify_a overwrite_example_classify_b

theorem later_member_overwrites_witness:
  "\<exists>tf. collect_test_files [] [''a.i01'', ''b.i01''] = Inr tf
     \<and> test_file tf 1 [] True = Some ''b.i01''"
proof -
  have "\<forall>n \<in> set [''a.i01'', ''b.i01'']. \<exists>c. classify n = Inr c"
    using overwrite_example_classify by auto
  from later_member_overwrites [OF this] obtain tf where
    tf: "collect_test_files [] [''a.i01'', ''b.i01''] = Inr tf"
    and f: "\<forall>g s d. test_file tf g s d =
          (case filter (\<lambda>n. classify n = Inr (d, g, s)) [''a.i01'', ''b.i01''] of
             [] \<Rightarrow> None
           | n # ns \<Rightarrow> Some (last (n # ns)))"
    by blast
  from f have "test_file tf 1 [] True = Some ''b.i01''"
    by (simp add: overwrite_example_classify)
  with tf show ?thesis
    by blast
qed

section \<open>Properties of the extraction loop\<close>

lemma increment_ok:
  "0 \<le> g \<Longrightarrow> g < int (length xs) \<Longrightarrow> increment xs g = Inr (xs[nat g := xs ! nat g + 1])"
  by (simp add: increment_def)

lemma increment_out_of_range:
  "int (length xs) \<le> g \<Longrightarrow> increment xs g = Inl IndexError"
  by (simp add: increment_def)

lemma increment_length: "increment xs g = Inr ys \<Longrightarrow> length ys = length xs"
  by (auto simp: increment_def split: if_splits)

lemma extract_test_ok:
  assumes "0 \<le> g" and "g < int (length tpg)"
    and "map_of m s = Some (Some i, Some o')"
    and "read_ascii z i = Inr ic" and "read_ascii z o' = Inr oc"
  shows "extract_test z pg w g m s (tpg, tcs) =
     Inr (tpg[nat g := tpg ! nat g + 1],
          AList.update (format_zero w g @ s)
            \<lparr>codename = format_zero w g @ s, public = (g \<in> set pg),
             input_digest = ic, output_digest = oc\<rparr> tcs)"
  using assms by (simp add: extract_test_def increment_ok Let_def)

lemma extract_test_index_error:
  "int (length tpg) \<le> g \<Longrightarrow> extract_test z pg w g m s (tpg, tcs) = Inl IndexError"
  by (simp add: extract_test_def increment_out_of_range)

lemma set_update_subset: "set (AList.update k v al) \<subseteq> insert (k, v) (set al)"
  by (induction al) auto

lemma extract_test_keys:
  assumes "extract_test z pg w g m s st = Inr st'"
  shows "fst ` set (snd st') = insert (format_zero w g @ s) (fst ` set (snd st))"
    and "(\<forall>(k, tc) \<in> set (snd st). codename tc = k) \<Longrightarrow>
         (\<forall>(k, tc) \<in> set (snd st'). codename tc = k)"
proof -
  from assms obtain tpg' ic oc where
    st': "st' = (tpg', AList.update (format_zero w g @ s)
            \<lparr>codename = format_zero w g @ s, public = (g \<in> set pg),
             input_digest = ic, output_digest = oc\<rparr> (snd st))"
    by (auto simp: extract_test_def Let_def split: sum.splits option.splits prod.splits)
  show "fst ` set (snd st') = insert (format_zero w g @ s) (fst ` set (snd st))"
    by (simp add: st' dom_update)
  show "(\<forall>(k, tc) \<in> set (snd st'). codename tc = k)"
    if "\<forall>(k, tc) \<in> set (snd st). codename tc = k"
    using that unfolding st' by (auto dest: set_update_subset[THEN subsetD])
qed

lemma extract_group_keys:
  assumes "extract_group z pg w g m subs st = Inr st'"
  shows "fst ` set (snd st') = fst ` set (snd st) \<union> (\<lambda>s. format_zero w g @ s) ` set subs
       \<and> ((\<forall>(k, tc) \<in> set (snd st). codename tc = k) \<longrightarrow>
         (\<forall>(k, tc) \<in> set (snd st'). codename tc = k))"
  using assms
proof (induction subs arbitrary: st)
  case Nil
  then show ?case by simp
next
  case (Cons s subs)
  from Cons.prems obtain st1 where t: "extract_test z pg w g m s st = Inr st1"
    and r: "extract_group z pg w g m subs st1 = Inr st'"
    by (auto split: sum.splits)
  from Cons.IH[OF r] extract_test_keys[OF t] show ?case by auto
qed

lemma extract_groups_keys:
  assumes "extract_groups z pg w tf gs st = Inr st'"
  shows "fst ` set (snd st') =
           fst ` set (snd st) \<union> {format_zero w g @ s | g s. g \<in> set gs \<and> s \<in> labels tf g}
       \<and> ((\<forall>(k, tc) \<in> set (snd st). codename tc = k) \<longrightarrow>
         (\<forall>(k, tc) \<in> set (snd st'). codename tc = k))"
  using assms
proof (induction gs arbitrary: st)
  case Nil
  then show ?case by simp
next
  case (Cons g gs)
  from Cons.prems obtain m st1 where m: "map_of tf g = Some m"
    and e: "extract_group z pg w g m (sort (map fst m)) st = Inr st1"
    and r: "extract_groups z pg w tf gs st1 = Inr st'"
    by (auto split: sum.splits option.splits)
  have l: "labels tf g = set (sort (map fst m))"
    using m by (simp add: labels_def)
  have "{format_zero w g' @ s | g' s. g' \<in> set (g # gs) \<and> s \<in> labels tf g'}
      = (\<lambda>s. format_zero w g @ s) ` set (sort (map fst m))
        \<union> {format_zero w g' @ s | g' s. g' \<in> set gs \<and> s \<in> labels tf g'}"
    unfolding l[symmetric] by auto
  with Cons.IH[OF r] extract_group_keys[OF e] show ?case
    by (simp add: Un_assoc)
qed


lemma extract_group_ok:
  assumes "0 \<le> g" and "g < int (length tpg)"
    and "\<forall>s \<in> set subs. \<exists>i o' ic oc.
           map_of m s = Some (Some i, Some o') \<and> read_ascii z i = Inr ic \<and> read_ascii z o' = Inr oc"
  shows "\<exists>tcs'. extract_group z pg w g m subs (tpg, tcs) =
           Inr (tpg[nat g := tpg ! nat g + int (length subs)], tcs')"
  using assms
proof (induction subs arbitrary: tpg tcs)
  case Nil
  then show ?case by simp
next
  case (Cons s subs)
  from Cons.prems(3) obtain i o' ic oc where
    "map_of m s = Some (Some i, Some o')" "read_ascii z i = Inr ic" "read_ascii z o' = Inr oc"
    by auto
  from extract_test_ok[OF Cons.prems(1,2) this] obtain tcs1 where
    t: "extract_test z pg w g m s (tpg, tcs) = Inr (tpg[nat g := tpg ! nat g + 1], tcs1)"
    by blast
  let ?tpg1 = "tpg[nat g := tpg ! nat g + 1]"
  have len: "g < int (length ?tpg1)" using Cons.prems(2) by simp
  from Cons.IH[OF Cons.prems(1) len, of tcs1] Cons.prems(3) obtain tcs' where
    r: "extract_group z pg w g m subs (?tpg1, tcs1) =
          Inr (?tpg1[nat g := ?tpg1 ! nat g + int (length subs)], tcs')"
    by auto
  have "nat g < length tpg" using Cons.prems(1,2) by simp
  then have "?tpg1[nat g := ?tpg1 ! nat g + int (length subs)]
      = tpg[nat g := tpg ! nat g + int (length (s # subs))]"
    by (simp add: add.assoc)
  with t r show ?case by simp
qed

lemma complete_group_lookup:
  assumes "complete_group z m" and "s \<in> set (map fst m)"
  shows "\<exists>i o' ic oc.
           map_of m s = Some (Some i, Some o') \<and> read_ascii z i = Inr ic \<and> read_ascii z o' = Inr oc"
proof -
  from assms(2) obtain t0 where "(s, t0) \<in> set m" by auto
  then obtain t where t: "map_of m s = Some t" by (auto dest: weak_map_of_SomeI)
  then have "(s, t) \<in> set m" by (rule map_of_SomeD)
  with assms(1) t show ?thesis unfolding complete_group_def by fastforce
qed

lemma extract_groups_step:
  assumes "g \<in> fst ` set tf"
  shows "extract_groups z pg w tf (g # rest) st =
     (case extract_group z pg w g (in_group_of tf g) (sort (map fst (in_group_of tf g))) st of
        Inl e \<Rightarrow> Inl e
      | Inr st' \<Rightarrow> extract_groups z pg w tf rest st')"
proof -
  from assms obtain m where "map_of tf g = Some m"
    by (auto dest: weak_map_of_SomeI)
  then show ?thesis by (simp add: in_group_of_def)
qed

lemma extract_group_complete:
  assumes "0 \<le> g" and "g < int (length tpg)" and "complete_group z (in_group_of tf g)"
  shows "\<exists>tcs'. extract_group z pg w g (in_group_of tf g) (sort (map fst (in_group_of tf g))) (tpg, tcs)
           = Inr (tpg[nat g := tpg ! nat g + int (length (in_group_of tf g))], tcs')"
proof -
  have "\<forall>s \<in> set (sort (map fst (in_group_of tf g))). \<exists>i o' ic oc.
      map_of (in_group_of tf g) s = Some (Some i, Some o')
      \<and> read_ascii z i = Inr ic \<and> read_ascii z o' = Inr oc"
    using complete_group_lookup[OF assms(3)] by simp
  from extract_group_ok[OF assms(1,2) this, of pg w tcs] show ?thesis by simp
qed

lemma extract_groups_ok:
  assumes "\<forall>g \<in> set gs. 0 \<le> g \<and> g < int (length tpg) \<and> g \<in> fst ` set tf
             \<and> complete_group z (in_group_of tf g)"
    and "distinct gs"
  shows "\<exists>tpg' tcs'. extract_groups z pg w tf gs (tpg, tcs) = Inr (tpg', tcs')
           \<and> length tpg' = length tpg
           \<and> (\<forall>k < length tpg. tpg' ! k =
                tpg ! k + (if int k \<in> set gs then int (length (in_group_of tf (int k))) else 0))"
  using assms
proof (induction gs arbitrary: tpg tcs)
  case Nil
  then show ?case by simp
next
  case (Cons g gs)
  from Cons.prems(1) have g: "0 \<le> g" "g < int (length tpg)" "g \<in> fst ` set tf"
    "complete_group z (in_group_of tf g)"
    by simp_all
  let ?tpg1 = "tpg[nat g := tpg ! nat g + int (length (in_group_of tf g))]"
  from extract_group_complete[OF g(1,2,4), of pg w tcs] obtain tcs1 where
    e: "extract_group z pg w g (in_group_of tf g) (sort (map fst (in_group_of tf g))) (tpg, tcs)
          = Inr (?tpg1, tcs1)"
    by blast
  have "\<forall>g \<in> set gs. 0 \<le> g \<and> g < int (length ?tpg1) \<and> g \<in> fst ` set tf
          \<and> complete_group z (in_group_of tf g)"
    using Cons.prems(1) by simp
  moreover have "distinct gs" using Cons.prems(2) by simp
  ultimately obtain tpg' tcs' where
    r: "extract_groups z pg w tf gs (?tpg1, tcs1) = Inr (tpg', tcs')"
    and len: "length tpg' = length ?tpg1"
    and cnt: "\<forall>k < length ?tpg1. tpg' ! k =
          ?tpg1 ! k + (if int k \<in> set gs then int (length (in_group_of tf (int k))) else 0)"
    using Cons.IH[of ?tpg1 tcs1] by blast
  have ex: "extract_groups z pg w tf (g # gs) (tpg, tcs) = Inr (tpg', tcs')"
    by (simp only: extract_groups_step[OF g(3)] e sum.case r)
  have "tpg' ! k = tpg ! k
      + (if int k \<in> set (g # gs) then int (length (in_group_of tf (int k))) else 0)"
    if k: "k < length tpg" for k
  proof (cases "int k = g")
    case True
    then have "nat g = k" by simp
    moreover from True Cons.prems(2) have "int k \<notin> set gs" by simp
    ultimately show ?thesis using cnt k True by simp
  next
    case False
    then have "nat g \<noteq> k" using g(1) by auto
    then show ?thesis using cnt k False by simp
  qed
  with ex len show ?case by simp
qed

lemma extract_groups_index_error:
  assumes "\<forall>g \<in> set low. 0 \<le> g \<and> g < int (length tpg) \<and> g \<in> fst ` set tf
             \<and> complete_group z (in_group_of tf g)"
    and "int (length tpg) \<le> g" and "g \<in> fst ` set tf" and "in_group_of tf g \<noteq> []"
  shows "extract_groups z pg w tf (low @ g # rest) (tpg, tcs) = Inl IndexError"
  using assms(1,2)
proof (induction low arbitrary: tpg tcs)
  case Nil
  from assms(4) have "sort (map fst (in_group_of tf g)) \<noteq> []"
    by (auto dest: arg_cong[of _ _ length])
  then obtain s subs where s: "sort (map fst (in_group_of tf g)) = s # subs"
    by (cases "sort (map fst (in_group_of tf g))") auto
  have "extract_group z pg w g (in_group_of tf g) (s # subs) (tpg, tcs) = Inl IndexError"
    by (simp add: extract_test_index_error[OF Nil.prems(2)])
  then show ?case
    by (simp only: append_Nil extract_groups_step[OF assms(3)] s sum.case)
next
  case (Cons a low)
  from Cons.prems(1) have a: "0 \<le> a" "a < int (length tpg)" "a \<in> fst ` set tf"
    "complete_group z (in_group_of tf a)"
    by simp_all
  let ?tpg1 = "tpg[nat a := tpg ! nat a + int (length (in_group_of tf a))]"
  from extract_group_complete[OF a(1,2,4), of pg w tcs] obtain tcs1 where
    e: "extract_group z pg w a (in_group_of tf a) (sort (map fst (in_group_of tf a))) (tpg, tcs)
          = Inr (?tpg1, tcs1)"
    by blast
  have "\<forall>g \<in> set low. 0 \<le> g \<and> g < int (length ?tpg1) \<and> g \<in> fst ` set tf
          \<and> complete_group z (in_group_of tf g)"
    using Cons.prems(1) by simp
  moreover have "int (length ?tpg1) \<le> g"
    using Cons.prems(2) by simp
  ultimately have "extract_groups z pg w tf (low @ g # rest) (?tpg1, tcs1) = Inl IndexError"
    by (rule Cons.IH)
  then show ?case
    by (simp only: append_Cons extract_groups_step[OF a(3)] e sum.case)
qed

section \<open>From the archive to the collected test files\<close>

lemma classify_nonneg:
  assumes "classify n = Inr (d, g, s)"
  shows "0 \<le> g"
proof -
  from assms obtain g1 g2 where sr: "search n = Some (g1, g2, s)" and pi: "py_int g2 = Inr g"
    by (auto simp: classify_def split: if_splits option.splits sum.splits)
  from search_suffix[OF sr] obtain base s' where "match_here s' = Some (g1, g2, s)"
    by blast
  from match_here_SomeD[OF this] have "g2 \<noteq> []" "\<forall>c \<in> set g2. isdigit c"
    by (auto simp: name_parts_def)
  from py_int_digits[OF this] pi show ?thesis
    by simp
qed

lemma member_group_Some:
  "member_group n = Some g \<longleftrightarrow> (\<exists>d s. classify n = Inr (d, g, s))"
  by (auto simp: member_group_def split: sum.splits)

lemma read_ascii_member:
  assumes "n \<in> set (map fst z)"
    and "\<forall>(n', bytes) \<in> set z. n' = n \<longrightarrow> (\<forall>b \<in> set bytes. (of_char b :: nat) < 128)"
  shows "\<exists>c. read_ascii z n = Inr c"
proof -
  from assms(1) obtain b0 where "(n, b0) \<in> set z" by auto
  then have "(n, b0) \<in> set (rev z)" by simp
  from weak_map_of_SomeI[OF this] obtain b where b: "map_of (rev z) n = Some b" by blast
  then have "(n, b) \<in> set z" by (auto dest: map_of_SomeD)
  with assms(2) have "\<forall>c \<in> set b. (of_char c :: nat) < 128" by auto
  then have "\<not> (\<exists>c \<in> set b. (128::nat) \<le> of_char c)" by (auto simp: not_le)
  with b show ?thesis by (simp add: read_ascii_def)
qed

lemma in_group_of_Nil: "in_group_of [] g = []"
  by (simp add: in_group_of_def)

lemma labels_Nil: "labels [] g = {}"
  by (simp add: labels_def)

lemma collected_labels:
  assumes "collect_test_files [] names = Inr tf"
  shows "labels tf g = {s. \<exists>n \<in> set names. \<exists>d. classify n = Inr (d, g, s)}"
  using collect_test_files_labels[OF assms, of g] by (simp add: labels_Nil)

lemma collected_keys:
  assumes "collect_test_files [] names = Inr tf"
  shows "fst ` set tf = {g. \<exists>n \<in> set names. member_group n = Some g}"
  using collect_test_files_keys[OF assms] by simp

lemma collected_test_file:
  assumes "collect_test_files [] names = Inr tf"
    and "n \<in> set names" and "classify n = Inr (d, g, s)"
  shows "\<exists>n' \<in> set names. test_file tf g s d = Some n' \<and> classify n' = Inr (d, g, s)"
proof -
  let ?f = "filter (\<lambda>n. classify n = Inr (d, g, s)) names"
  from assms(2,3) have ne: "?f \<noteq> []"
    by (auto simp: filter_empty_conv)
  then have "test_file tf g s d = Some (last ?f)"
    using collect_test_files_test_file[OF assms(1), of g s d]
    by (cases ?f) (simp_all add: test_file_Nil)
  moreover from ne have "last ?f \<in> set ?f" by (rule last_in_set)
  ultimately show ?thesis by auto
qed

lemma collected_group_complete:
  assumes tf: "collect_test_files [] (map fst z) = Inr tf"
    and comp: "\<forall>n \<in> set (map fst z). member_group n = Some g \<longrightarrow>
                 (\<exists>n' \<in> set (map fst z). counterpart n n')"
    and ascii: "\<forall>(n, bytes) \<in> set z. member_group n = Some g \<longrightarrow>
                 (\<forall>b \<in> set bytes. (of_char b :: nat) < 128)"
  shows "complete_group z (in_group_of tf g)"
  unfolding complete_group_def
proof (clarify)
  fix s i0 o0
  assume mem: "(s, (i0, o0)) \<in> set (in_group_of tf g)"
  have "distinct (map fst (in_group_of tf g))"
    using collect_test_files_inner_distinct[OF tf] by (simp add: in_group_of_Nil)
  with mem have mo: "map_of (in_group_of tf g) s = Some (i0, o0)" by simp
  then have tfI: "test_file tf g s True = i0" and tfO: "test_file tf g s False = o0"
    by (simp_all add: test_file_in_group_of testcase_of_def)
  from mem have "s \<in> labels tf g"
    by (force simp: labels_in_group_of)
  then obtain n d where n: "n \<in> set (map fst z)" "classify n = Inr (d, g, s)"
    unfolding collected_labels[OF tf] by blast
  then have "member_group n = Some g" by (simp add: member_group_def)
  with comp n(1) obtain n' where n': "n' \<in> set (map fst z)" "counterpart n n'" by blast
  then have cn': "classify n' = Inr (\<not> d, g, s)" using n(2) by (simp add: counterpart_def)
  have both: "\<exists>m \<in> set (map fst z). classify m = Inr (dd, g, s)" for dd
    using n n' cn' by (cases "dd = d") auto
  have rd: "\<exists>m c. test_file tf g s dd = Some m \<and> read_ascii z m = Inr c" for dd
  proof -
    from both[of dd] obtain m where m: "m \<in> set (map fst z)" "classify m = Inr (dd, g, s)"
      by blast
    from collected_test_file[OF tf m] obtain m' where
      m': "m' \<in> set (map fst z)" "test_file tf g s dd = Some m'" "classify m' = Inr (dd, g, s)"
      by blast
    then have "member_group m' = Some g" by (simp add: member_group_def)
    with ascii have "\<forall>(n', bytes) \<in> set z. n' = m' \<longrightarrow> (\<forall>b \<in> set bytes. (of_char b :: nat) < 128)"
      by auto
    from read_ascii_member[OF m'(1) this] m'(2) show ?thesis by blast
  qed
  from rd[of True] rd[of False] tfI tfO
  show "\<exists>i o' ic oc. (i0, o0) = (Some i, Some o') \<and> read_ascii z i = Inr ic
          \<and> read_ascii z o' = Inr oc"
    by auto
qed

lemma collected_group_nonempty:
  assumes "collect_test_files [] names = Inr tf" and "g \<in> fst ` set tf"
  shows "in_group_of tf g \<noteq> []"
proof -
  from assms(2) obtain n where "n \<in> set names" "member_group n = Some g"
    unfolding collected_keys[OF assms(1)] by blast
  then have "labels tf g \<noteq> {}"
    unfolding collected_labels[OF assms(1)] member_group_Some by blast
  then show ?thesis by (auto simp: labels_in_group_of)
qed

lemma collected_nonneg:
  assumes "collect_test_files [] names = Inr tf" and "g \<in> fst ` set tf"
  shows "0 \<le> g"
proof -
  from assms(2) obtain n where "member_group n = Some g"
    unfolding collected_keys[OF assms(1)] by blast
  then show ?thesis unfolding member_group_Some by (auto dest: classify_nonneg)
qed

lemma py_max_Max: "xs \<noteq> [] \<Longrightarrow> py_max xs = Inr (Max (set xs))"
proof (cases xs)
  case Nil
  assume "xs \<noteq> []"
  with Nil show ?thesis by simp
next
  case (Cons a list)
  have "fold max list a = Max (set (a # list))"
    by (rule Max.set_eq_fold[symmetric])
  with Cons show ?thesis by simp
qed

lemma py_max_Inr: "py_max xs = Inr m \<Longrightarrow> xs \<noteq> [] \<and> m = Max (set xs)"
  using py_max_Max[of xs] by (cases xs) auto

lemma set_map_filter: "set (List.map_filter f xs) = {y. \<exists>x \<in> set xs. f x = Some y}"
  by (induction xs) (auto simp: List.map_filter_simps split: option.splits)

lemma collected_max_group:
  assumes "collect_test_files [] (map fst z) = Inr tf"
  shows "Max (set (map fst tf)) = max_group z"
  using collected_keys[OF assms] by (simp add: max_group_def set_map_filter)

lemma check_tests_per_group_ok:
  "\<forall>n \<in> set ns. n \<noteq> 0 \<Longrightarrow> check_tests_per_group i ns = Inr ()"
  by (induction ns arbitrary: i) auto

lemma check_tests_per_group_first_zero:
  "j < length ns \<Longrightarrow> ns ! j = 0 \<Longrightarrow> \<forall>k < j. ns ! k \<noteq> 0 \<Longrightarrow>
     check_tests_per_group i ns = Inl (NoTestcases (int (i + j)))"
proof (induction ns arbitrary: i j)
  case Nil
  then show ?case by simp
next
  case (Cons n ns)
  show ?case
  proof (cases j)
    case 0
    with Cons.prems show ?thesis by simp
  next
    case (Suc j')
    with Cons.prems have "n \<noteq> 0" by auto
    moreover have "check_tests_per_group (Suc i) ns = Inl (NoTestcases (int (Suc i + j')))"
      using Cons.prems Suc by (intro Cons.IH) auto
    ultimately show ?thesis using Suc by simp
  qed
qed

lemma score_params_ok:
  "\<forall>i \<in> set is. i \<in> fst ` set d \<Longrightarrow> \<exists>ps. score_params d is = Inr ps"
proof (induction "is")
  case Nil
  then show ?case by simp
next
  case (Cons i "is")
  then obtain ps where "score_params d is = Inr ps" by auto
  moreover from Cons.prems obtain p where "map_of d i = Some p"
    by (auto dest: weak_map_of_SomeI)
  ultimately show ?case by simp
qed

section \<open>Properties of the import\<close>

lemma get_task_unfold:
  assumes pp: "parse_point_file lines = Inr ppg"
    and sp: "score_params ppg [0..int (length ppg) - 1] = Inr params"
    and tf: "collect_test_files [] (map fst z) = Inr tf"
    and ne: "tf \<noteq> []"
  shows "get_task pg lines z =
     (case extract_groups z (case pg of None \<Rightarrow> [0, 1] | Some gs \<Rightarrow> gs)
             (length (str_int (max_group z))) tf (sort (map fst tf))
             (replicate (length ppg) 0, []) of
        Inl e \<Rightarrow> Inl e
      | Inr st \<Rightarrow>
          (case check_tests_per_group 0 (fst st) of
             Inl e \<Rightarrow> Inl e
           | Inr _ \<Rightarrow> Inr \<lparr>score_type_parameters = params, testcases = snd st\<rparr>))"
proof -
  have "py_max (map fst tf) = Inr (max_group z)"
    using ne py_max_Max[of "map fst tf"] collected_max_group[OF tf] by simp
  then show ?thesis
    by (simp add: get_task_def pp sp tf Let_def)
qed

lemma parse_point_file_score_params:
  assumes "parse_point_file lines = Inr ppg"
  shows "\<exists>params. score_params ppg [0..int (length ppg) - 1] = Inr params"
proof -
  from parse_point_file_result[OF assms]
  have "\<forall>i \<in> set [0..int (length ppg) - 1]. i \<in> fst ` set ppg" by simp
  then show ?thesis by (rule score_params_ok)
qed

lemma complete_tests_accepted:
  assumes "complete_tests z gs" and "n \<in> set (map fst z)"
  shows "\<exists>c. classify n = Inr c"
proof -
  from assms have "member_group n \<noteq> None"
    unfolding complete_tests_def by (auto split: option.splits)
  then show ?thesis by (auto simp: member_group_def split: sum.splits)
qed

lemma get_task_complete_tests:
  assumes pp: "parse_point_file lines = Inr ppg"
    and ct: "complete_tests z gs"
    and sub: "\<forall>g \<in> set gs. g < int (length ppg)"
    and ne: "gs \<noteq> []"
  shows "\<exists>params tpg' tcs'.
      score_params ppg [0..int (length ppg) - 1] = Inr params
      \<and> get_task pg lines z =
          (case check_tests_per_group 0 tpg' of
             Inl e \<Rightarrow> Inl e
           | Inr _ \<Rightarrow> Inr \<lparr>score_type_parameters = params, testcases = tcs'\<rparr>)
      \<and> length tpg' = length ppg
      \<and> (\<forall>k < length ppg. (tpg' ! k = 0) = (int k \<notin> set gs))"
proof -
  let ?names = "map fst z"
  let ?pg = "case pg of None \<Rightarrow> [0, 1] | Some gs \<Rightarrow> gs"
  let ?w = "length (str_int (max_group z))"
  from parse_point_file_score_params[OF pp] obtain params where
    sp: "score_params ppg [0..int (length ppg) - 1] = Inr params" by blast
  have "\<forall>n \<in> set ?names. \<exists>c. classify n = Inr c"
    using complete_tests_accepted[OF ct] by blast
  from collect_test_files_succeeds[OF this, of "[]"] obtain tf where
    tf: "collect_test_files [] ?names = Inr tf" by blast
  have keys: "fst ` set tf = set gs"
  proof -
    have "{g. \<exists>n \<in> set ?names. member_group n = Some g} = set gs"
      using ct unfolding complete_tests_def by (auto split: option.splits)
    then show ?thesis using collected_keys[OF tf] by simp
  qed
  with ne have tfne: "tf \<noteq> []" by auto
  have dist: "distinct (sort (map fst tf))"
    using collect_test_files_distinct[OF tf] by simp
  have setS: "set (sort (map fst tf)) = set gs"
    using keys by simp
  have good: "\<forall>g \<in> set (sort (map fst tf)).
      0 \<le> g \<and> g < int (length (replicate (length ppg) (0::int))) \<and> g \<in> fst ` set tf
      \<and> complete_group z (in_group_of tf g)"
  proof
    fix g
    assume "g \<in> set (sort (map fst tf))"
    then have g: "g \<in> fst ` set tf" by simp
    have "complete_group z (in_group_of tf g)"
    proof (rule collected_group_complete[OF tf])
      show "\<forall>n \<in> set ?names. member_group n = Some g \<longrightarrow> (\<exists>n' \<in> set ?names. counterpart n n')"
        using ct unfolding complete_tests_def by blast
      show "\<forall>(n, bytes) \<in> set z. member_group n = Some g \<longrightarrow>
              (\<forall>b \<in> set bytes. (of_char b :: nat) < 128)"
        using ct unfolding complete_tests_def by force
    qed
    with g collected_nonneg[OF tf g] sub keys
    show "0 \<le> g \<and> g < int (length (replicate (length ppg) (0::int))) \<and> g \<in> fst ` set tf
      \<and> complete_group z (in_group_of tf g)"
      by auto
  qed
  from extract_groups_ok[OF good dist, of ?pg ?w "[]"] obtain tpg' tcs' where
    ex: "extract_groups z ?pg ?w tf (sort (map fst tf)) (replicate (length ppg) 0, [])
           = Inr (tpg', tcs')"
    and len: "length tpg' = length ppg"
    and cnt: "\<forall>k < length ppg. tpg' ! k =
        (if int k \<in> set gs then int (length (in_group_of tf (int k))) else 0)"
    unfolding setS by auto
  have zero: "(tpg' ! k = 0) = (int k \<notin> set gs)" if "k < length ppg" for k
  proof (cases "int k \<in> set gs")
    case True
    then have "in_group_of tf (int k) \<noteq> []"
      using collected_group_nonempty[OF tf] keys by blast
    with cnt that True show ?thesis by simp
  next
    case False
    with cnt that show ?thesis by simp
  qed
  have "get_task pg lines z =
      (case check_tests_per_group 0 tpg' of
         Inl e \<Rightarrow> Inl e
       | Inr _ \<Rightarrow> Inr \<lparr>score_type_parameters = params, testcases = tcs'\<rparr>)"
    unfolding get_task_unfold[OF pp sp tf tfne] ex by (simp cong: sum.case_cong)
  with sp len zero show ?thesis by blast
qed

lemma get_task_extra_group:
  assumes pp: "parse_point_file lines = Inr ppg"
    and acc: "\<forall>n \<in> set (map fst z). \<exists>c. classify n = Inr c"
    and comp: "\<forall>n \<in> set (map fst z). \<forall>g. member_group n = Some g \<and> g < int (length ppg) \<longrightarrow>
                 (\<exists>n' \<in> set (map fst z). counterpart n n')"
    and ascii: "\<forall>(n, bytes) \<in> set z. \<forall>g. member_group n = Some g \<and> g < int (length ppg) \<longrightarrow>
                 (\<forall>b \<in> set bytes. (of_char b :: nat) < 128)"
    and extra: "\<exists>n \<in> set (map fst z). \<exists>g. member_group n = Some g \<and> int (length ppg) \<le> g"
  shows "get_task pg lines z = Inl IndexError"
proof -
  let ?names = "map fst z"
  let ?pg = "case pg of None \<Rightarrow> [0, 1] | Some gs \<Rightarrow> gs"
  let ?w = "length (str_int (max_group z))"
  let ?N = "int (length ppg)"
  from parse_point_file_score_params[OF pp] obtain params where
    sp: "score_params ppg [0..int (length ppg) - 1] = Inr params" by blast
  from collect_test_files_succeeds[OF acc, of "[]"] obtain tf where
    tf: "collect_test_files [] ?names = Inr tf" by blast
  let ?S = "sort (map fst tf)"
  from extra obtain gx where gx: "gx \<in> fst ` set tf" "?N \<le> gx"
    unfolding collected_keys[OF tf] by blast
  then have tfne: "tf \<noteq> []" by auto
  let ?low = "takeWhile (\<lambda>g. g < ?N) ?S"
  have "gx \<in> set ?S" using gx(1) by simp
  moreover have "\<not> gx < ?N" using gx(2) by simp
  ultimately have "\<not> (\<forall>x \<in> set ?S. x < ?N)" by blast
  then have "dropWhile (\<lambda>g. g < ?N) ?S \<noteq> []"
    unfolding dropWhile_eq_Nil_conv .
  then obtain g rest where dw: "dropWhile (\<lambda>g. g < ?N) ?S = g # rest"
    by (cases "dropWhile (\<lambda>g. g < ?N) ?S") auto
  then have gN: "?N \<le> g"
    using hd_dropWhile[of "\<lambda>g. g < ?N" ?S] by (simp add: not_less)
  have S: "?S = ?low @ g # rest"
    using dw takeWhile_dropWhile_id[of "\<lambda>g. g < ?N" ?S] by simp
  have gk: "g \<in> fst ` set tf"
  proof -
    have "g \<in> set ?S" by (subst S) simp
    then show ?thesis by simp
  qed
  have good: "\<forall>a \<in> set ?low.
      0 \<le> a \<and> a < int (length (replicate (length ppg) (0::int))) \<and> a \<in> fst ` set tf
      \<and> complete_group z (in_group_of tf a)"
  proof
    fix a
    assume a: "a \<in> set ?low"
    then have aN: "a < ?N" by (auto dest: set_takeWhileD)
    from a have "a \<in> set ?S" by (auto dest: set_takeWhileD)
    then have ak: "a \<in> fst ` set tf" by simp
    have "complete_group z (in_group_of tf a)"
    proof (rule collected_group_complete[OF tf])
      show "\<forall>n \<in> set ?names. member_group n = Some a \<longrightarrow> (\<exists>n' \<in> set ?names. counterpart n n')"
        using comp aN by blast
      show "\<forall>(n, bytes) \<in> set z. member_group n = Some a \<longrightarrow>
              (\<forall>b \<in> set bytes. (of_char b :: nat) < 128)"
        using ascii aN by blast
    qed
    with ak aN collected_nonneg[OF tf ak]
    show "0 \<le> a \<and> a < int (length (replicate (length ppg) (0::int))) \<and> a \<in> fst ` set tf
      \<and> complete_group z (in_group_of tf a)"
      by simp
  qed
  have "int (length (replicate (length ppg) (0::int))) \<le> g" using gN by simp
  from extract_groups_index_error[OF good this gk collected_group_nonempty[OF tf gk],
      of ?pg ?w rest "[]"]
  have "extract_groups z ?pg ?w tf ?S (replicate (length ppg) 0, []) = Inl IndexError"
    using S by simp
  then show ?thesis
    unfolding get_task_unfold[OF pp sp tf tfne] by simp
qed


lemma point_file_30_30_70:
  "parse_point_file [''0-1 30'' @ [CHR 0x0A], ''2-2 70'' @ [CHR 0x0A]] = Inl PointsSum"
  by code_simp

lemma score_params_30_30_40:
  "score_params [(0, 30), (1, 30), (2, 40)] [0..int (length [(0::int, 30::int), (1, 30), (2, 40)]) - 1]
     = Inr [(30, ''000''), (30, ''001''), (40, ''002'')]"
  by code_simp

text \<open>
  With the lines \<open>0-1 30\<close> and \<open>2-2 70\<close> and complete tests for the groups 0, 1 and 2 the
  import fails on the sum of the points; and for the points 30, 30 and 70 the scoring
  parameters would carry the labels \<open>000\<close>, \<open>001\<close> and \<open>002\<close>.
\<close>

theorem sum_130_and_labels_counterexample:
  "get_task None [''0-1 30'' @ [CHR 0x0A], ''2-2 70'' @ [CHR 0x0A]]
     [(''t.i0'', ''1''), (''t.o0'', ''2''), (''t.i1'', ''1''), (''t.o1'', ''2''),
      (''t.i2'', ''1''), (''t.o2'', ''2'')] = Inl PointsSum
   \<and> score_params [(0, 30), (1, 30), (2, 70)] [0, 1, 2]
       = Inr [(30, ''000''), (30, ''001''), (70, ''002'')]"
  by code_simp

text \<open>
  Claim C2, as amended. The lines \<open>0-1 30\<close> and \<open>2-2 70\<close> give 30 + 30 + 70 = 130 points and
  are rejected with "Points for all groups doesn't sum up to 100", whatever the archive.
  With the lines \<open>0-1 30\<close> and \<open>2-2 40\<close> and an archive that holds complete ASCII tests
  exactly for the groups 0, 1 and 2, the import succeeds and the scoring parameters are
  \<open>[[30,"000"],[30,"001"],[40,"002"]]\<close>: one pair per group in ascending order, the
  label being the group index padded with zeros to three digits.
\<close>

theorem import_three_groups:
  assumes "complete_tests z [0, 1, 2]"
  shows "(\<exists>r. get_task pg [''0-1 30'' @ [CHR 0x0A], ''2-2 40'' @ [CHR 0x0A]] z = Inr r
            \<and> score_type_parameters r = [(30, ''000''), (30, ''001''), (40, ''002'')])
    \<and> get_task pg [''0-1 30'' @ [CHR 0x0A], ''2-2 70'' @ [CHR 0x0A]] z = Inl PointsSum"
proof -
  let ?ppg = "[(0::int, 30::int), (1, 30), (2, 40)]"
  have sub: "\<forall>g \<in> set [0, 1, 2]. g < int (length ?ppg)" by simp
  from get_task_complete_tests[OF point_file_30_30_40 assms sub, of pg]
  obtain params tpg' tcs' where
    sp: "score_params ?ppg [0..int (length ?ppg) - 1] = Inr params"
    and gt: "get_task pg [''0-1 30'' @ [CHR 0x0A], ''2-2 40'' @ [CHR 0x0A]] z =
          (case check_tests_per_group 0 tpg' of
             Inl e \<Rightarrow> Inl e
           | Inr _ \<Rightarrow> Inr \<lparr>score_type_parameters = params, testcases = tcs'\<rparr>)"
    and len: "length tpg' = length ?ppg"
    and zero: "\<forall>k < length ?ppg. (tpg' ! k = 0) = (int k \<notin> set [0, 1, 2])"
    by auto
  have p: "params = [(30, ''000''), (30, ''001''), (40, ''002'')]"
    using sp unfolding score_params_30_30_40 by simp
  have "\<forall>n \<in> set tpg'. n \<noteq> 0"
  proof
    fix n
    assume "n \<in> set tpg'"
    then obtain k where k: "k < length tpg'" "tpg' ! k = n" by (auto simp: in_set_conv_nth)
    with len have "k < 3" by simp
    then have "int k \<in> set [0, 1, 2]" by auto
    with zero k len show "n \<noteq> 0" by auto
  qed
  then have "check_tests_per_group 0 tpg' = Inr ()" by (rule check_tests_per_group_ok)
  with gt p have "get_task pg [''0-1 30'' @ [CHR 0x0A], ''2-2 40'' @ [CHR 0x0A]] z
      = Inr \<lparr>score_type_parameters = [(30, ''000''), (30, ''001''), (40, ''002'')],
             testcases = tcs'\<rparr>"
    by simp
  moreover have "get_task pg [''0-1 30'' @ [CHR 0x0A], ''2-2 70'' @ [CHR 0x0A]] z = Inl PointsSum"
    unfolding get_task_def point_file_30_30_70 by simp
  ultimately show ?thesis by simp
qed

lemma complete_tests_example:
  "complete_tests
     [(''t.i0'', ''1''), (''t.o0'', ''2''), (''t.i1'', ''1''), (''t.o1'', ''2''),
      (''t.i2'', ''1''), (''t.o2'', ''2'')] [0, 1, 2]"
  by code_simp

theorem import_three_groups_witness:
  "\<exists>r. get_task None [''0-1 30'' @ [CHR 0x0A], ''2-2 40'' @ [CHR 0x0A]]
      [(''t.i0'', ''1''), (''t.o0'', ''2''), (''t.i1'', ''1''), (''t.o1'', ''2''),
       (''t.i2'', ''1''), (''t.o2'', ''2'')] = Inr r
     \<and> score_type_parameters r = [(30, ''000''), (30, ''001''), (40, ''002'')]"
  using import_three_groups [OF complete_tests_example, of None]
  by blast


text \<open>
  With the lines \<open>0-1 30\<close> and \<open>2-2 70\<close> and no tests for group 2 the import fails on the
  sum of the points, not on the empty group. With four groups of 25 points and tests for
  the groups 0 and 1 only, the groups 2 and 3 are both empty and the error names group 2.
\<close>

theorem empty_group_counterexample:
  "get_task None [''0-1 30'' @ [CHR 0x0A], ''2-2 70'' @ [CHR 0x0A]]
     [(''t.i0'', ''1''), (''t.o0'', ''2''), (''t.i1'', ''1''), (''t.o1'', ''2'')] = Inl PointsSum
   \<and> get_task None [''0-3 25'' @ [CHR 0x0A]]
     [(''t.i0'', ''1''), (''t.o0'', ''2''), (''t.i1'', ''1''), (''t.o1'', ''2'')]
     = Inl (NoTestcases 2)"
  by code_simp

text \<open>
  Claim C6, as amended. The final check reads the test counts in ascending group order:
  it fails with "No testcases for group i" for the lowest group \<open>i\<close> whose count is zero,
  and passes when no count is zero. For an import whose point file parses into \<open>N\<close> groups
  and whose archive holds complete ASCII tests exactly for the groups \<open>gs\<close>, all below
  \<open>N\<close>, the error names the lowest group of \<open>0..N-1\<close> that is not in \<open>gs\<close>: the point file
  \<open>0-1 30\<close>, \<open>2-2 40\<close> with tests for the groups 0 and 1 only fails with
  "No testcases for group 2".
\<close>

theorem empty_group_lowest:
  "(i < length tpg \<and> tpg ! i = 0 \<and> (\<forall>j < i. tpg ! j \<noteq> 0) \<longrightarrow>
      check_tests_per_group 0 tpg = Inl (NoTestcases (int i)))
   \<and> ((\<forall>j < length tpg. tpg ! j \<noteq> 0) \<longrightarrow> check_tests_per_group 0 tpg = Inr ())
   \<and> (parse_point_file lines = Inr ppg \<and> complete_tests z gs \<and> gs \<noteq> []
        \<and> (\<forall>g \<in> set gs. g < int (length ppg))
        \<and> k < length ppg \<and> int k \<notin> set gs \<and> (\<forall>j < k. int j \<in> set gs) \<longrightarrow>
      get_task pg lines z = Inl (NoTestcases (int k)))
   \<and> (complete_tests z' [0, 1] \<longrightarrow>
      get_task pg [''0-1 30'' @ [CHR 0x0A], ''2-2 40'' @ [CHR 0x0A]] z' = Inl (NoTestcases 2))"
proof -
  have a: "check_tests_per_group 0 tpg = Inl (NoTestcases (int i))"
    if "i < length tpg" "tpg ! i = 0" "\<forall>j < i. tpg ! j \<noteq> 0"
    using check_tests_per_group_first_zero[OF that, of 0] by simp
  have b: "check_tests_per_group 0 tpg = Inr ()" if "\<forall>j < length tpg. tpg ! j \<noteq> 0"
  proof -
    from that have "\<forall>n \<in> set tpg. n \<noteq> 0" by (auto simp: in_set_conv_nth)
    then show ?thesis by (rule check_tests_per_group_ok)
  qed
  have c: "get_task pg lines z = Inl (NoTestcases (int k))"
    if pp: "parse_point_file lines = Inr ppg" and ct: "complete_tests z gs" and ne: "gs \<noteq> []"
      and sub: "\<forall>g \<in> set gs. g < int (length ppg)"
      and k: "k < length ppg" "int k \<notin> set gs" "\<forall>j < k. int j \<in> set gs"
    for lines ppg z gs k
  proof -
    from get_task_complete_tests[OF pp ct sub ne, of pg]
    obtain params tpg' tcs' where
      gt: "get_task pg lines z =
            (case check_tests_per_group 0 tpg' of
               Inl e \<Rightarrow> Inl e
             | Inr _ \<Rightarrow> Inr \<lparr>score_type_parameters = params, testcases = tcs'\<rparr>)"
      and len: "length tpg' = length ppg"
      and zero: "\<forall>k < length ppg. (tpg' ! k = 0) = (int k \<notin> set gs)"
      by auto
    have "k < length tpg'" using k(1) len by simp
    moreover have "tpg' ! k = 0" using zero k(1,2) by simp
    moreover have "\<forall>j < k. tpg' ! j \<noteq> 0" using zero k(1,3) by auto
    ultimately have "check_tests_per_group 0 tpg' = Inl (NoTestcases (int (0 + k)))"
      by (rule check_tests_per_group_first_zero)
    with gt show ?thesis by simp
  qed
  have d: "get_task pg [''0-1 30'' @ [CHR 0x0A], ''2-2 40'' @ [CHR 0x0A]] z' = Inl (NoTestcases 2)"
    if ct: "complete_tests z' [0, 1]"
  proof -
    have "\<forall>j < 2. int j \<in> set [0, 1]"
      by (auto simp: less_Suc_eq numeral_2_eq_2)
    then show ?thesis
      using c[OF point_file_30_30_40 ct, of 2] by simp
  qed
  from a b c d show ?thesis by blast
qed

lemma complete_tests_two_groups:
  "complete_tests
     [(''t.i0'', ''1''), (''t.o0'', ''2''), (''t.i1'', ''1''), (''t.o1'', ''2'')] [0, 1]"
  by code_simp

theorem empty_group_lowest_witness:
  "check_tests_per_group 0 [1, 0, 0] = Inl (NoTestcases 1)
   \<and> check_tests_per_group 0 [1, 2] = Inr ()
   \<and> get_task None [''0-1 30'' @ [CHR 0x0A], ''2-2 40'' @ [CHR 0x0A]]
        [(''t.i0'', ''1''), (''t.o0'', ''2''), (''t.i1'', ''1''), (''t.o1'', ''2'')]
      = Inl (NoTestcases 2)"
proof -
  have "check_tests_per_group 0 [1, 0, 0] = Inl (NoTestcases 1)"
    using empty_group_lowest [of 1 "[1, 0, 0]"] by simp
  moreover have "check_tests_per_group 0 [1, 2] = Inr ()"
    using empty_group_lowest [of _ "[1, 2]"] by (simp add: less_Suc_eq numeral_2_eq_2)
  moreover have "get_task None [''0-1 30'' @ [CHR 0x0A], ''2-2 40'' @ [CHR 0x0A]]
        [(''t.i0'', ''1''), (''t.o0'', ''2''), (''t.i1'', ''1''), (''t.o1'', ''2'')]
      = Inl (NoTestcases 2)"
    using empty_group_lowest [where z' =
        "[(''t.i0'', ''1''), (''t.o0'', ''2''), (''t.i1'', ''1''), (''t.o1'', ''2'')]"
        and pg = None]
      complete_tests_two_groups
    by blast
  ultimately show ?thesis by blast
qed

text \<open>
  Claim C8. When every member name is accepted, the tests of the groups below the number
  \<open>N\<close> of groups of the point file are complete ASCII tests, and some member belongs to a
  group \<open>N\<close> or above, the import fails with \<open>IndexError\<close>, raised by the increment of
  \<open>tests_per_group\<close>; it is not a \<open>LioLoaderException\<close>.
\<close>

theorem extra_group_index_error:
  assumes pp: "parse_point_file lines = Inr ppg"
    and acc: "accepted_names z"
    and comp: "complete_below z (int (length ppg))"
    and extra: "has_group_from z (int (length ppg))"
  shows "get_task pg lines z = Inl IndexError \<and> \<not> is_LioLoaderException IndexError"
proof -
  have 1: "\<forall>n \<in> set (map fst z). \<exists>c. classify n = Inr c"
  proof
    fix n
    assume "n \<in> set (map fst z)"
    with acc have "member_group n \<noteq> None" unfolding accepted_names_def by blast
    then show "\<exists>c. classify n = Inr c" by (auto simp: member_group_def split: sum.splits)
  qed
  have 2: "\<forall>n \<in> set (map fst z). \<forall>g. member_group n = Some g \<and> g < int (length ppg) \<longrightarrow>
           (\<exists>n' \<in> set (map fst z). counterpart n n')"
    using comp unfolding complete_below_def by force
  have 3: "\<forall>(n, bytes) \<in> set z. \<forall>g. member_group n = Some g \<and> g < int (length ppg) \<longrightarrow>
           (\<forall>b \<in> set bytes. (of_char b :: nat) < 128)"
    using comp unfolding complete_below_def by force
  have 4: "\<exists>n \<in> set (map fst z). \<exists>g. member_group n = Some g \<and> int (length ppg) \<le> g"
    using extra unfolding has_group_from_def by (auto split: option.splits)
  from get_task_extra_group[OF pp 1 2 3 4] show ?thesis by simp
qed

lemma extra_group_example_accepted:
  "accepted_names
     [(''t.i0'', ''1''), (''t.o0'', ''2''), (''t.i1'', ''1''), (''t.o1'', ''2''),
      (''t.i2'', ''1''), (''t.o2'', ''2''), (''t.i7'', ''1'')]"
  by code_simp

lemma extra_group_example_complete:
  "complete_below
     [(''t.i0'', ''1''), (''t.o0'', ''2''), (''t.i1'', ''1''), (''t.o1'', ''2''),
      (''t.i2'', ''1''), (''t.o2'', ''2''), (''t.i7'', ''1'')] 3"
  by code_simp

lemma extra_group_example_extra:
  "has_group_from
     [(''t.i0'', ''1''), (''t.o0'', ''2''), (''t.i1'', ''1''), (''t.o1'', ''2''),
      (''t.i2'', ''1''), (''t.o2'', ''2''), (''t.i7'', ''1'')] 3"
  by code_simp

theorem extra_group_index_error_witness:
  "get_task None [''0-1 30'' @ [CHR 0x0A], ''2-2 40'' @ [CHR 0x0A]]
     [(''t.i0'', ''1''), (''t.o0'', ''2''), (''t.i1'', ''1''), (''t.o1'', ''2''),
      (''t.i2'', ''1''), (''t.o2'', ''2''), (''t.i7'', ''1'')] = Inl IndexError"
  using extra_group_index_error [OF point_file_30_30_40, of
      "[(''t.i0'', ''1''), (''t.o0'', ''2''), (''t.i1'', ''1''), (''t.o1'', ''2''),
        (''t.i2'', ''1''), (''t.o2'', ''2''), (''t.i7'', ''1'')]" None]
    extra_group_example_accepted extra_group_example_complete extra_group_example_extra
  by simp

lemma get_task_InrD:
  assumes "get_task pg lines z = Inr r"
  shows "\<exists>ppg tf st. parse_point_file lines = Inr ppg
      \<and> collect_test_files [] (map fst z) = Inr tf \<and> tf \<noteq> []
      \<and> extract_groups z (case pg of None \<Rightarrow> [0, 1] | Some gs \<Rightarrow> gs)
            (length (str_int (max_group z))) tf (sort (map fst tf))
            (replicate (length ppg) 0, []) = Inr st
      \<and> testcases r = snd st"
proof -
  from assms obtain ppg where pp: "parse_point_file lines = Inr ppg"
    by (auto simp: get_task_def split: sum.splits)
  from assms pp obtain params where sp: "score_params ppg [0..int (length ppg) - 1] = Inr params"
    by (auto simp: get_task_def split: sum.splits)
  from assms pp sp obtain tf where tf: "collect_test_files [] (map fst z) = Inr tf"
    by (auto simp: get_task_def Let_def split: sum.splits)
  from assms pp sp tf obtain m where "py_max (map fst tf) = Inr m"
    by (auto simp: get_task_def Let_def split: sum.splits)
  then have ne: "tf \<noteq> []" by (auto dest: py_max_Inr)
  from assms show ?thesis
    unfolding get_task_unfold[OF pp sp tf ne] using pp tf ne
    by (auto split: sum.splits)
qed

lemma format_zero_nonneg:
  "0 \<le> g \<Longrightarrow> format_zero w g = replicate (w - length (str_int g)) (CHR ''0'') @ str_int g"
  by (simp add: format_zero_def str_int_def)

lemma codename_example_12: "format_zero (length (str_int 12)) 3 @ ''b'' = ''03b''"
  by code_simp

lemma codename_example_150: "format_zero (length (str_int 150)) 3 @ ''b'' = ''003b''"
  by code_simp

text \<open>
  Claim C5. In a successful import the keys of the test cases are exactly the code names
  of the tests of the archive: for a test of group \<open>g\<close> with label \<open>t\<close>, the decimal digits
  of \<open>g\<close>, padded with zeros on the left to the number of digits of the largest group of
  the archive, followed by \<open>t\<close>; every test case carries its key as code name. Group 3
  with label \<open>b\<close> gives \<open>03b\<close> when the largest group is 12 and \<open>003b\<close> when it is 150.
\<close>

theorem codename_zero_padded:
  assumes "get_task pg lines z = Inr r"
  shows "fst ` set (testcases r) =
           {format_zero (length (str_int (max_group z))) g @ t | g t.
              \<exists>name \<in> set (map fst z). \<exists>d. classify name = Inr (d, g, t)}
    \<and> (\<forall>(k, tc) \<in> set (testcases r). codename tc = k)
    \<and> (\<forall>name \<in> set (map fst z). \<forall>d g t. classify name = Inr (d, g, t) \<longrightarrow>
          format_zero (length (str_int (max_group z))) g
            = replicate (length (str_int (max_group z)) - length (str_int g)) (CHR ''0'')
                @ str_int g)
    \<and> format_zero (length (str_int 12)) 3 @ ''b'' = ''03b''
    \<and> format_zero (length (str_int 150)) 3 @ ''b'' = ''003b''"
proof -
  let ?w = "length (str_int (max_group z))"
  from get_task_InrD[OF assms] obtain ppg tf st where
    pp: "parse_point_file lines = Inr ppg"
    and tf: "collect_test_files [] (map fst z) = Inr tf"
    and ex: "extract_groups z (case pg of None \<Rightarrow> [0, 1] | Some gs \<Rightarrow> gs) ?w tf
              (sort (map fst tf)) (replicate (length ppg) 0, []) = Inr st"
    and r: "testcases r = snd st"
    by blast
  from extract_groups_keys[OF ex]
  have k: "fst ` set (snd st) =
      {format_zero ?w g @ s | g s. g \<in> set (sort (map fst tf)) \<and> s \<in> labels tf g}"
    and c: "\<forall>(k, tc) \<in> set (snd st). codename tc = k"
    by simp_all
  have "(g \<in> set (sort (map fst tf)) \<and> s \<in> labels tf g)
      \<longleftrightarrow> (\<exists>name \<in> set (map fst z). \<exists>d. classify name = Inr (d, g, s))" for g s
  proof -
    have "s \<in> labels tf g \<Longrightarrow> g \<in> fst ` set tf"
      unfolding collected_labels[OF tf] collected_keys[OF tf] member_group_Some by blast
    then show ?thesis
      unfolding collected_labels[OF tf] by auto
  qed
  with k have "fst ` set (testcases r) =
      {format_zero ?w g @ t | g t. \<exists>name \<in> set (map fst z). \<exists>d. classify name = Inr (d, g, t)}"
    unfolding r by simp
  moreover have "\<forall>(k, tc) \<in> set (testcases r). codename tc = k"
    using c unfolding r .
  moreover have "\<forall>name \<in> set (map fst z). \<forall>d g t. classify name = Inr (d, g, t) \<longrightarrow>
      format_zero ?w g = replicate (?w - length (str_int g)) (CHR ''0'') @ str_int g"
    by (auto dest: classify_nonneg simp: format_zero_nonneg)
  ultimately show ?thesis
    using codename_example_12 codename_example_150 by blast
qed

lemma codename_example_import:
  "get_task None [''0-1 50'' @ [CHR 0x0A]]
     [(''x.i0'', ''in0''), (''x.o0'', ''out0''), (''x.i1b'', ''in1''), (''x.o1b'', ''out1'')]
   = Inr \<lparr>score_type_parameters = [(50, ''000''), (50, ''001'')],
          testcases =
            [(''0'', \<lparr>codename = ''0'', public = True,
                      input_digest = ''in0'', output_digest = ''out0''\<rparr>),
             (''1b'', \<lparr>codename = ''1b'', public = True,
                      input_digest = ''in1'', output_digest = ''out1''\<rparr>)]\<rparr>"
  by code_simp

theorem codename_zero_padded_witness:
  "{''0'', ''1b''} =
       {format_zero (length (str_int (max_group
            [(''x.i0'', ''in0''), (''x.o0'', ''out0''), (''x.i1b'', ''in1''),
             (''x.o1b'', ''out1'')]))) g @ t | g t.
          \<exists>name \<in> set (map fst
            [(''x.i0'', ''in0''), (''x.o0'', ''out0''), (''x.i1b'', ''in1''),
             (''x.o1b'', ''out1'')]). \<exists>d. classify name = Inr (d, g, t)}"
  using codename_zero_padded [OF codename_example_import]
  by simp

end
